theory Spec2Isabelle
  imports Complex_Main "HOL-Library.Log_Nat"
begin

section \<open>JavaScript numbers\<close>

text \<open>
  The hooks keep lamport amounts in JavaScript \<^verbatim>\<open>number\<close>s and \<^verbatim>\<open>bigint\<close>s. A lamport
  amount is modelled as an \<^typ>\<open>int\<close>. Bigint arithmetic is exact. Every arithmetic
  operation on numbers gives the IEEE 754 binary64 value nearest to the exact result
  (ties to the even significand): a finite binary64 value is a rational, so numbers that
  may be fractional are modelled as \<^typ>\<open>rat\<close> and every operation on numbers rounds with
  \<open>fl\<close>. The sum of two integer-valued numbers is integer-valued again, and it is the
  exact sum only while that is within the safe integers; \<open>js_add_int\<close> is this sum.
  Results of magnitude \<open>2^1024\<close> and more (Infinity) are outside the model.
\<close>

definition ilog2 :: "rat \<Rightarrow> int" where
  \<comment> \<open>the integer \<open>e\<close> with \<open>2^e \<le> q < 2^(e+1)\<close>, for \<open>q > 0\<close>\<close>
  "ilog2 q = (case quotient_of q of (a, b) \<Rightarrow>
     (let d = bitlen a - bitlen b in if 2 powi d \<le> q then d else d - 1))"

definition round_half_even :: "rat \<Rightarrow> int" where
  "round_half_even y = (let f = \<lfloor>y\<rfloor>; r = y - of_int f in
     if r < 1 / 2 then f else if 1 / 2 < r then f + 1 else if even f then f else f + 1)"

definition ulp :: "rat \<Rightarrow> rat" where
  \<comment> \<open>spacing of binary64 values around \<open>q\<close>: 53 significant bits, subnormals below \<open>2^-1022\<close>\<close>
  "ulp q = 2 powi (max (ilog2 \<bar>q\<bar> - 52) (- 1074))"

definition fl :: "rat \<Rightarrow> rat" where
  "fl q = (if q = 0 then 0 else sgn q * of_int (round_half_even (\<bar>q\<bar> / ulp q)) * ulp q)"

definition js_add :: "rat \<Rightarrow> rat \<Rightarrow> rat" where
  "js_add x y = fl (x + y)"

definition js_add_int :: "int \<Rightarrow> int \<Rightarrow> int" where
  \<comment> \<open>\<^verbatim>\<open>x + y\<close> for integer-valued numbers: the binary64 sum, an integer again\<close>
  "js_add_int x y = \<lfloor>js_add (of_int x) (of_int y)\<rfloor>"

definition js_mul :: "rat \<Rightarrow> rat \<Rightarrow> rat" where
  "js_mul x y = fl (x * y)"

definition js_div :: "rat \<Rightarrow> rat \<Rightarrow> rat" where
  "js_div x y = fl (x / y)"

definition js_number :: "int \<Rightarrow> rat" where
  \<comment> \<open>\<^verbatim>\<open>Number(b)\<close> for a bigint \<open>b\<close>\<close>
  "js_number b = fl (of_int b)"

section \<open>Strings\<close>

fun startsWith :: "string \<Rightarrow> string \<Rightarrow> bool" where
  "startsWith s [] = True"
| "startsWith [] (c # cs) = False"
| "startsWith (x # xs) (c # cs) = (x = c \<and> startsWith xs cs)"

fun includes_str :: "string \<Rightarrow> string \<Rightarrow> bool" where
  \<comment> \<open>\<^verbatim>\<open>s.includes(sub)\<close>\<close>
  "includes_str [] sub = (sub = [])"
| "includes_str (x # xs) sub = (startsWith (x # xs) sub \<or> includes_str xs sub)"

definition toLowerChar :: "char \<Rightarrow> char" where
  "toLowerChar c = (let n = (of_char c :: nat) in if 65 \<le> n \<and> n \<le> 90 then char_of (n + 32) else c)"

definition toLowerCase :: "string \<Rightarrow> string" where
  \<comment> \<open>on ASCII letters; other characters are left as they are\<close>
  "toLowerCase s = map toLowerChar s"

section \<open>solana/constants.ts\<close>

definition LAMPORTS_PER_SOL :: rat where
  "LAMPORTS_PER_SOL = 1000000000"

definition SENTO_FEE_PERCENTAGE :: rat where
  \<comment> \<open>the literal \<^verbatim>\<open>0.005\<close>\<close>
  "SENTO_FEE_PERCENTAGE = fl (5 / 1000)"

text \<open>\<^verbatim>\<open>PLATFORM_FEE_WALLET\<close> and \<^verbatim>\<open>PLATFORM_FEE_ENABLED\<close> are read from the process environment.\<close>

record fee_config =
  PLATFORM_FEE_WALLET :: string
  PLATFORM_FEE_ENABLED :: bool

section \<open>utils/errors.ts\<close>

datatype ErrorCode =
    WALLET_NOT_CONNECTED | WALLET_REJECTED | WALLET_DISCONNECTED
  | INSUFFICIENT_BALANCE | INSUFFICIENT_COMPRESSED_BALANCE
  | TRANSACTION_FAILED | TRANSACTION_TIMEOUT | TRANSACTION_CANCELLED
  | NETWORK_ERROR | RPC_ERROR
  | INVALID_ADDRESS | INVALID_AMOUNT | INVALID_INVOICE
  | COMPLIANCE_CHECK_FAILED | WALLET_NOT_COMPLIANT
  | STORAGE_ERROR
  | UNKNOWN_ERROR

fun ERROR_MESSAGES :: "ErrorCode \<Rightarrow> string" where
  "ERROR_MESSAGES WALLET_NOT_CONNECTED = ''Please connect your wallet to continue.''"
| "ERROR_MESSAGES WALLET_REJECTED = ''You declined the transaction. Please try again.''"
| "ERROR_MESSAGES WALLET_DISCONNECTED = ''Your wallet was disconnected. Please reconnect.''"
| "ERROR_MESSAGES INSUFFICIENT_BALANCE = ''Insufficient balance. Please add more SOL to your wallet.''"
| "ERROR_MESSAGES INSUFFICIENT_COMPRESSED_BALANCE = ''Insufficient private balance. Please compress more SOL first.''"
| "ERROR_MESSAGES TRANSACTION_FAILED = ''Transaction failed. Please try again.''"
| "ERROR_MESSAGES TRANSACTION_TIMEOUT = ''Transaction timed out. Please check your network and try again.''"
| "ERROR_MESSAGES TRANSACTION_CANCELLED = ''Transaction was cancelled.''"
| "ERROR_MESSAGES NETWORK_ERROR = ''Network error. Please check your connection and try again.''"
| "ERROR_MESSAGES RPC_ERROR = ''Unable to connect to Solana. Please try again later.''"
| "ERROR_MESSAGES INVALID_ADDRESS = ''Invalid wallet address. Please check and try again.''"
| "ERROR_MESSAGES INVALID_AMOUNT = ''Invalid amount. Please enter a valid number.''"
| "ERROR_MESSAGES INVALID_INVOICE = ''Invalid invoice. This invoice may not exist.''"
| "ERROR_MESSAGES COMPLIANCE_CHECK_FAILED = ''Compliance check failed. Please try again.''"
| "ERROR_MESSAGES WALLET_NOT_COMPLIANT = ''This wallet cannot be used for payments at this time.''"
| "ERROR_MESSAGES STORAGE_ERROR = ''Failed to save data. Please try again.''"
| "ERROR_MESSAGES UNKNOWN_ERROR = ''An unexpected error occurred. Please try again.''"

text \<open>
  A \<^verbatim>\<open>SentoError\<close> holds its code, the message of the error it wraps (if any) and a
  context record, here a list of named numbers. Its \<^verbatim>\<open>userMessage\<close> (and \<^verbatim>\<open>message\<close>) is the
  entry of \<^verbatim>\<open>ERROR_MESSAGES\<close> for the code.
\<close>

datatype SentoError =
  SentoError (errCode: ErrorCode) (originalError: "string option")
    (errContext: "(string \<times> rat) list option")

definition userMessage :: "SentoError \<Rightarrow> string" where
  "userMessage e = ERROR_MESSAGES (errCode e)"

text \<open>
  What a \<^verbatim>\<open>catch\<close> receives: a \<^verbatim>\<open>SentoError\<close>, any other \<^verbatim>\<open>Error\<close> (with its message), or
  \<^verbatim>\<open>undefined\<close>.
\<close>

datatype thrown = Sento SentoError | JsError string | JsUndefined

definition classifyMessage :: "string \<Rightarrow> ErrorCode" where
  \<comment> \<open>the chain of tests of \<^verbatim>\<open>parseError\<close> on the lower-cased message of an \<^verbatim>\<open>Error\<close>\<close>
  "classifyMessage message =
    (if includes_str message ''wallet'' \<and> includes_str message ''not connected'' then WALLET_NOT_CONNECTED
     else if includes_str message ''user rejected'' \<or> includes_str message ''user declined'' then WALLET_REJECTED
     else if includes_str message ''disconnected'' then WALLET_DISCONNECTED
     else if includes_str message ''insufficient'' \<and> includes_str message ''balance'' then INSUFFICIENT_BALANCE
     else if includes_str message ''insufficient'' \<and> includes_str message ''compressed'' then INSUFFICIENT_COMPRESSED_BALANCE
     else if includes_str message ''transaction'' \<and> includes_str message ''failed'' then TRANSACTION_FAILED
     else if includes_str message ''timeout'' \<or> includes_str message ''timed out'' then TRANSACTION_TIMEOUT
     else if includes_str message ''cancelled'' \<or> includes_str message ''canceled'' then TRANSACTION_CANCELLED
     else if includes_str message ''network'' \<or> includes_str message ''fetch'' then NETWORK_ERROR
     else if includes_str message ''rpc'' \<or> includes_str message ''connection refused'' then RPC_ERROR
     else if includes_str message ''invalid'' \<and> includes_str message ''address'' then INVALID_ADDRESS
     else if includes_str message ''invalid'' \<and> includes_str message ''amount'' then INVALID_AMOUNT
     else if includes_str message ''compliance'' then COMPLIANCE_CHECK_FAILED
     else if includes_str message ''not compliant'' \<or> includes_str message ''sanctioned'' then WALLET_NOT_COMPLIANT
     else if includes_str message ''storage'' \<or> includes_str message ''localstorage'' then STORAGE_ERROR
     else UNKNOWN_ERROR)"

fun parseError :: "thrown \<Rightarrow> SentoError" where
  "parseError (Sento e) = e"
| "parseError (JsError m) = SentoError (classifyMessage (toLowerCase m)) (Some m) None"
| "parseError JsUndefined = SentoError UNKNOWN_ERROR None None"

section \<open>utils/format.ts\<close>

definition isBase58Char :: "char \<Rightarrow> bool" where
  \<comment> \<open>the class \<^verbatim>\<open>[1-9A-HJ-NP-Za-km-z]\<close>\<close>
  "isBase58Char c = (let n = (of_char c :: nat) in
     (49 \<le> n \<and> n \<le> 57) \<or> (65 \<le> n \<and> n \<le> 72) \<or> (74 \<le> n \<and> n \<le> 78) \<or>
     (80 \<le> n \<and> n \<le> 90) \<or> (97 \<le> n \<and> n \<le> 107) \<or> (109 \<le> n \<and> n \<le> 122))"

definition isValidPublicKey :: "string \<Rightarrow> bool" where
  "isValidPublicKey address =
     (32 \<le> length address \<and> length address \<le> 44 \<and> list_all isBase58Char address)"

section \<open>Data model (types/index.ts)\<close>

text \<open>
  Generated identifiers and timestamps (\<^verbatim>\<open>id\<close>, \<^verbatim>\<open>createdAt\<close>, \<^verbatim>\<open>paidAt\<close>) are left out of
  the records: no decision of the modelled code reads them. Optional fields are options.
\<close>

datatype InvoiceStatus = InvoiceUnpaid | InvoicePaid | InvoiceCancelled

record Invoice =
  inv_sender :: string
  inv_recipient :: string
  inv_amount :: int
  inv_note :: string
  inv_status :: InvoiceStatus
  inv_teamId :: "string option"
  inv_createdBy :: "string option"
  inv_txSignature :: "string option"

record TransactionResult =
  tr_success :: bool
  tr_signature :: "string option"
  tr_error :: "string option"

datatype RecipientStatus = Pending | Paid | Failed

record BatchRecipientInput =
  in_wallet :: string
  in_amount :: int
  in_note :: "string option"

record BatchRecipient =
  r_wallet :: string
  r_amount :: int
  r_note :: "string option"
  r_status :: RecipientStatus
  r_txSignature :: "string option"
  r_error :: "string option"

datatype BatchPaymentStatus = BatchPending | Completed | BatchFailed | Partial

record BatchPayment =
  b_creatorWallet :: string
  b_teamId :: "string option"
  b_totalAmount :: int
  b_proofHash :: "string option"
  b_status :: BatchPaymentStatus
  b_recipients :: "BatchRecipient list"

record ExecuteBatchOptions =
  recipients :: "BatchRecipientInput list"
  teamId :: "string option"
  proofHash :: "string option"

text \<open>A compressed account as the indexer returns it: its hash and its lamports.\<close>

record account =
  acc_hash :: string
  acc_lamports :: int

section \<open>The collaborators and the effects\<close>

text \<open>
  Everything outside the repository answers through a \<open>world\<close>: the wallet adapter, the
  \<^verbatim>\<open>PublicKey\<close> constructor, the indexer, the ledger connection, the pipeline that proves,
  signs, sends and confirms an instruction, and the invoice store. An answer \<open>Inl m\<close>
  (or \<open>Some m\<close> for a call without a result) is an \<^verbatim>\<open>Error\<close> with message \<open>m\<close> thrown by the
  call. The \<open>k\<close>-th call of a kind gets the \<open>k\<close>-th answer, so a world describes any
  sequence of answers. \<open>numberToString\<close> is the conversion of a number inside a template
  string.
\<close>

record world =
  walletConnected :: bool
  walletAddress :: string
  newPublicKey :: "string \<Rightarrow> string option"
  getCompressedAccountsByOwner :: "nat \<Rightarrow> string + account list"
  getBalance :: "string + int"
  sendAndConfirm :: "nat \<Rightarrow> string + string"
  saveBatchPaymentResult :: "string option"
  saveInvoiceResult :: "nat \<Rightarrow> string option"
  numberToString :: "rat \<Rightarrow> string"
  localeDateString :: string

text \<open>
  The effects of a run, in order: indexer and ledger reads, calls of the compression
  operations and the instructions they submit, timers, and writes to the store.
  Console output is not recorded.
\<close>

datatype event =
    EvGetAccounts
  | EvGetBalance
  | EvCompressSOL rat
  | EvSubmitCompress int
  | EvTransferCompressedSOL string int
  | EvSubmitTransfer string int "account list"
  | EvSleep nat
  | EvSaveBatchPayment BatchPayment
  | EvSaveInvoice Invoice

text \<open>
  The state threaded through a hook call: how many answers of each kind were consumed,
  the effects so far, and the hook's \<^verbatim>\<open>error\<close> state variable.
\<close>

record hook_state =
  accountReads :: nat
  submissions :: nat
  invoiceSaves :: nat
  trace :: "event list"
  hookError :: "SentoError option"

definition emit :: "event list \<Rightarrow> hook_state \<Rightarrow> hook_state" where
  "emit evs s = s\<lparr>trace := trace s @ evs\<rparr>"

section \<open>solana/light-protocol.ts\<close>

definition compressSOL :: "world \<Rightarrow> rat \<Rightarrow> hook_state \<Rightarrow> (thrown + string) \<times> hook_state" where
  "compressSOL w amountSOL s =
    (let lamportsToCompress = \<lfloor>js_mul amountSOL LAMPORTS_PER_SOL\<rfloor>;
         s1 = emit [EvCompressSOL amountSOL, EvSubmitCompress lamportsToCompress]
                (s\<lparr>submissions := submissions s + 1\<rparr>)
     in case sendAndConfirm w (submissions s) of
          Inl m \<Rightarrow> (Inl (JsError m), s1)
        | Inr signature \<Rightarrow> (Inr signature, s1))"

text \<open>
  The selection loop of \<^verbatim>\<open>transferCompressedSOL\<close> (and, word for word, of
  \<^verbatim>\<open>decompressSOL\<close>): over the accounts sorted by descending lamports, push the account,
  add its lamports, stop when the total covers the amount, stop at 4 accounts.
\<close>

fun selectLoop :: "account list \<Rightarrow> int \<Rightarrow> account list \<Rightarrow> int \<Rightarrow> account list \<times> int" where
  "selectLoop [] target selectedAccounts selectedTotal = (selectedAccounts, selectedTotal)"
| "selectLoop (a # sortedAccounts) target selectedAccounts selectedTotal =
    (let selectedAccounts' = selectedAccounts @ [a];
         selectedTotal' = selectedTotal + acc_lamports a
     in if selectedTotal' \<ge> target then (selectedAccounts', selectedTotal')
        else if length selectedAccounts' \<ge> 4 then (selectedAccounts', selectedTotal')
        else selectLoop sortedAccounts target selectedAccounts' selectedTotal')"

definition sortedAccounts :: "account list \<Rightarrow> account list" where
  \<comment> \<open>\<^verbatim>\<open>[...items].sort((a, b) => Number(b.lamports - a.lamports))\<close>: stable, descending\<close>
  "sortedAccounts items = sort_key (\<lambda>a. - acc_lamports a) items"

definition selectAccounts :: "account list \<Rightarrow> int \<Rightarrow> account list \<times> int" where
  "selectAccounts items target = selectLoop (sortedAccounts items) target [] 0"

definition transferCompressedSOL ::
  "world \<Rightarrow> string \<Rightarrow> int \<Rightarrow> hook_state \<Rightarrow> (thrown + string) \<times> hook_state" where
  "transferCompressedSOL w recipient lamportsAmount s =
    (let s1 = emit [EvTransferCompressedSOL recipient lamportsAmount, EvGetAccounts]
                (s\<lparr>accountReads := accountReads s + 1\<rparr>)
     in case getCompressedAccountsByOwner w (accountReads s) of
          Inl m \<Rightarrow> (Inl (JsError m), s1)
        | Inr items \<Rightarrow>
            if items = [] then (Inl (JsError ''No compressed SOL available for transfer''), s1)
            else
              let totalCompressedBalance = sum_list (map acc_lamports items) in
              if totalCompressedBalance < lamportsAmount then
                (Inl (JsError (''Insufficient compressed balance. Have: ''
                   @ numberToString w (js_div (js_number totalCompressedBalance) LAMPORTS_PER_SOL)
                   @ '' SOL, Need: ''
                   @ numberToString w (js_div (of_int lamportsAmount) LAMPORTS_PER_SOL)
                   @ '' SOL'')), s1)
              else
                (case selectAccounts items lamportsAmount of
                   (selectedAccounts, selectedTotal) \<Rightarrow>
                     if selectedTotal < lamportsAmount then
                       (Inl (JsError (''Cannot transfer ''
                          @ numberToString w (js_div (of_int lamportsAmount) LAMPORTS_PER_SOL)
                          @ '' SOL. Max available in 4 accounts: ''
                          @ numberToString w (js_div (js_number selectedTotal) LAMPORTS_PER_SOL)
                          @ '' SOL'')), s1)
                     else
                       let s2 = emit [EvSubmitTransfer recipient lamportsAmount selectedAccounts]
                                  (s1\<lparr>submissions := submissions s1 + 1\<rparr>)
                       in (case sendAndConfirm w (submissions s1) of
                             Inl m \<Rightarrow> (Inl (JsError m), s2)
                           | Inr signature \<Rightarrow> (Inr signature, s2))))"

definition getCompressedBalance :: "world \<Rightarrow> hook_state \<Rightarrow> int \<times> hook_state" where
  \<comment> \<open>an error of the indexer is caught and answered with 0\<close>
  "getCompressedBalance w s =
    (let s1 = emit [EvGetAccounts] (s\<lparr>accountReads := accountReads s + 1\<rparr>)
     in case getCompressedAccountsByOwner w (accountReads s) of
          Inl m \<Rightarrow> (0, s1)
        | Inr items \<Rightarrow> (sum_list (map acc_lamports items), s1))"

section \<open>The auto-compress block of both hooks\<close>

definition FEE_RESERVE :: rat where
  \<comment> \<open>\<^verbatim>\<open>0.01 * 1_000_000_000\<close>\<close>
  "FEE_RESERVE = js_mul (fl (1 / 100)) 1000000000"

definition amountToCompressSOL :: "int \<Rightarrow> rat" where
  \<comment> \<open>\<^verbatim>\<open>Number(shortfallLamports) / 1_000_000_000\<close>\<close>
  "amountToCompressSOL shortfallLamports = js_div (js_number shortfallLamports) 1000000000"

definition totalNeeded :: "int \<Rightarrow> rat" where
  \<comment> \<open>\<^verbatim>\<open>amountToCompressLamports + FEE_RESERVE\<close>\<close>
  "totalNeeded shortfallLamports = js_add (js_number shortfallLamports) FEE_RESERVE"

text \<open>
  Lines 127 to 159 of usePayment.ts and 71 to 91 of useBatchPayment.ts are the same
  statements (the first also writes to the console). \<open>amountLamports\<close> is the bigint of
  the total to pay; the result is the compressed balance as last read.
\<close>

definition autoCompress :: "world \<Rightarrow> int \<Rightarrow> hook_state \<Rightarrow> (thrown + int) \<times> hook_state" where
  "autoCompress w amountLamports s =
    (case getCompressedBalance w s of
       (compressedBalance, s1) \<Rightarrow>
         if compressedBalance < amountLamports then
           let shortfallLamports = amountLamports - compressedBalance;
               s2 = emit [EvGetBalance] s1
           in (case getBalance w of
                 Inl m \<Rightarrow> (Inl (JsError m), s2)
               | Inr walletBalance \<Rightarrow>
                   if of_int walletBalance < totalNeeded shortfallLamports then
                     (Inl (Sento (SentoError INSUFFICIENT_BALANCE None
                        (Some [(''walletBalance'', js_div (of_int walletBalance) 1000000000),
                               (''needed'', js_div (totalNeeded shortfallLamports) 1000000000)]))), s2)
                   else
                     (case compressSOL w (amountToCompressSOL shortfallLamports) s2 of
                        (Inl e, s3) \<Rightarrow> (Inl e, s3)
                      | (Inr signature, s3) \<Rightarrow>
                          (case getCompressedBalance w (emit [EvSleep 2000] s3) of
                             (compressedBalance', s4) \<Rightarrow> (Inr compressedBalance', s4))))
         else (Inr compressedBalance, s1))"

section \<open>hooks/usePayment.ts\<close>

definition feeLamports :: "fee_config \<Rightarrow> int \<Rightarrow> int" where
  "feeLamports cfg amount =
     (if PLATFORM_FEE_ENABLED cfg then \<lfloor>js_mul (of_int amount) SENTO_FEE_PERCENTAGE\<rfloor> else 0)"

definition totalLamports :: "fee_config \<Rightarrow> int \<Rightarrow> int" where
  \<comment> \<open>\<^verbatim>\<open>invoice.amount + feeLamports\<close>, an addition of numbers\<close>
  "totalLamports cfg amount = js_add_int amount (feeLamports cfg amount)"

text \<open>The body of the \<^verbatim>\<open>try\<close> of \<^verbatim>\<open>payInvoice\<close>: \<open>Inl\<close> is what it throws, \<open>Inr\<close> the signature.\<close>

definition payInvoiceBody ::
  "world \<Rightarrow> fee_config \<Rightarrow> Invoice \<Rightarrow> hook_state \<Rightarrow> (thrown + string) \<times> hook_state" where
  "payInvoiceBody w cfg invoice s =
    (case newPublicKey w (inv_recipient invoice) of
       Some m \<Rightarrow> (Inl (JsError m), s)
     | None \<Rightarrow>
        (case autoCompress w (totalLamports cfg (inv_amount invoice)) s of
           (Inl e, s1) \<Rightarrow> (Inl e, s1)
         | (Inr compressedBalance, s1) \<Rightarrow>
            (case (if feeLamports cfg (inv_amount invoice) > 0 then
                     (if PLATFORM_FEE_WALLET cfg = [] \<or> \<not> isValidPublicKey (PLATFORM_FEE_WALLET cfg)
                      then Inl (Sento (SentoError INVALID_ADDRESS None None))
                      else (case newPublicKey w (PLATFORM_FEE_WALLET cfg) of
                              Some m \<Rightarrow> Inl (JsError m)
                            | None \<Rightarrow> Inr (Some (PLATFORM_FEE_WALLET cfg))))
                   else Inr None) of
               Inl e \<Rightarrow> (Inl e, s1)
             | Inr feeRecipient \<Rightarrow>
                (case transferCompressedSOL w (inv_recipient invoice) (inv_amount invoice) s1 of
                   (Inl e, s2) \<Rightarrow> (Inl e, s2)
                 | (Inr signature, s2) \<Rightarrow>
                    (case feeRecipient of
                       None \<Rightarrow> (Inr signature, s2)
                     | Some feeWallet \<Rightarrow>
                        if feeLamports cfg (inv_amount invoice) > 0 then
                          (case transferCompressedSOL w feeWallet
                                  (feeLamports cfg (inv_amount invoice)) s2 of
                             (Inl e, s3) \<Rightarrow> (Inl e, s3)
                           | (Inr feeSignature, s3) \<Rightarrow> (Inr signature, s3))
                        else (Inr signature, s2))))))"

definition payInvoice ::
  "world \<Rightarrow> fee_config \<Rightarrow> Invoice \<Rightarrow> hook_state \<Rightarrow> TransactionResult \<times> hook_state" where
  "payInvoice w cfg invoice s =
    (if \<not> walletConnected w then
       (\<lparr>tr_success = False, tr_signature = None,
         tr_error = Some (userMessage (SentoError WALLET_NOT_CONNECTED None None))\<rparr>, s)
     else
       (case payInvoiceBody w cfg invoice (s\<lparr>hookError := None\<rparr>) of
          (Inr signature, s') \<Rightarrow>
            (\<lparr>tr_success = True, tr_signature = Some signature, tr_error = None\<rparr>, s')
        | (Inl err, s') \<Rightarrow>
            (\<lparr>tr_success = False, tr_signature = None,
              tr_error = Some (userMessage (parseError err))\<rparr>,
             s'\<lparr>hookError := Some (parseError err)\<rparr>)))"

section \<open>hooks/useBatchPayment.ts\<close>

definition maxAttempts :: nat where
  "maxAttempts = 3"

definition errorStr :: "thrown \<Rightarrow> string" where
  \<comment> \<open>\<^verbatim>\<open>transferErr?.message || String(transferErr)\<close>; an \<^verbatim>\<open>Error\<close> without message prints its name\<close>
  "errorStr e = (case e of
       Sento se \<Rightarrow> userMessage se
     | JsError m \<Rightarrow> (if m = [] then ''Error'' else m)
     | JsUndefined \<Rightarrow> ''undefined'')"

definition isQueueIssue :: "thrown \<Rightarrow> bool" where
  "isQueueIssue transferErr =
     (includes_str (errorStr transferErr) ''0x232a'' \<or> includes_str (errorStr transferErr) ''9002'')"

text \<open>
  The \<^verbatim>\<open>while (attempts < maxAttempts)\<close> loop and the \<^verbatim>\<open>throw lastError\<close> after it. \<open>Inr\<close> is
  the signature of the transfer that succeeded, \<open>Inl\<close> what the loop throws.
\<close>

function retryLoop ::
  "world \<Rightarrow> BatchRecipient \<Rightarrow> nat \<Rightarrow> thrown \<Rightarrow> hook_state \<Rightarrow> (thrown + string) \<times> hook_state" where
  "retryLoop w recipient attempts lastError s =
    (if attempts < maxAttempts then
       (case transferCompressedSOL w (r_wallet recipient) (r_amount recipient) s of
          (Inr signature, s1) \<Rightarrow> (Inr signature, s1)
        | (Inl transferErr, s1) \<Rightarrow>
            if isQueueIssue transferErr \<and> attempts + 1 < maxAttempts
            then retryLoop w recipient (attempts + 1) transferErr
                   (emit [EvSleep ((attempts + 1) * 2000)] s1)
            else (Inl transferErr, s1))
     else (Inl lastError, s))"
  by pat_completeness auto
termination
  by (relation "measure (\<lambda>(w, recipient, attempts, lastError, s). maxAttempts - attempts)") auto

declare retryLoop.simps [simp del]

text \<open>One turn of the \<^verbatim>\<open>for\<close> loop over the recipients.\<close>

definition processRecipient ::
  "world \<Rightarrow> BatchRecipient \<Rightarrow> hook_state \<Rightarrow> BatchRecipient \<times> hook_state" where
  "processRecipient w recipient s =
    (case (case newPublicKey w (r_wallet recipient) of
             Some m \<Rightarrow> (Inl (JsError m), s)
           | None \<Rightarrow> retryLoop w recipient 0 JsUndefined s) of
       (Inr signature, s1) \<Rightarrow>
         (recipient\<lparr>r_status := Paid, r_txSignature := Some signature\<rparr>, emit [EvSleep 500] s1)
     | (Inl err, s1) \<Rightarrow>
         (recipient\<lparr>r_status := Failed, r_error := Some (userMessage (parseError err))\<rparr>,
          emit [EvSleep 500] s1))"

fun processAll ::
  "world \<Rightarrow> BatchRecipient list \<Rightarrow> hook_state \<Rightarrow> BatchRecipient list \<times> hook_state" where
  "processAll w [] s = ([], s)"
| "processAll w (recipient # rest) s =
    (case processRecipient w recipient s of
       (recipient', s1) \<Rightarrow>
         (case processAll w rest s1 of (rest', s2) \<Rightarrow> (recipient' # rest', s2)))"

definition sanitizedRecipients :: "BatchRecipientInput list \<Rightarrow> BatchRecipientInput list" where
  "sanitizedRecipients rs = filter (\<lambda>recipient. in_amount recipient > 0 \<and> isValidPublicKey (in_wallet recipient)) rs"

definition toBatchRecipient :: "BatchRecipientInput \<Rightarrow> BatchRecipient" where
  "toBatchRecipient recipient =
     \<lparr>r_wallet = in_wallet recipient, r_amount = in_amount recipient, r_note = in_note recipient,
      r_status = Pending, r_txSignature = None, r_error = None\<rparr>"

definition batchStatus :: "BatchRecipient list \<Rightarrow> BatchPaymentStatus" where
  "batchStatus batchRecipients =
     (if list_all (\<lambda>r. r_status r = Paid) batchRecipients then Completed
      else if list_ex (\<lambda>r. r_status r = Paid) batchRecipients then Partial
      else BatchFailed)"

definition orUndefined :: "string option \<Rightarrow> string option" where
  \<comment> \<open>\<^verbatim>\<open>teamId || undefined\<close>\<close>
  "orUndefined x = (case x of None \<Rightarrow> None | Some t \<Rightarrow> if t = [] then None else Some t)"

definition batchInvoice :: "world \<Rightarrow> string option \<Rightarrow> BatchRecipient \<Rightarrow> Invoice" where
  "batchInvoice w team recipient =
     \<lparr>inv_sender = walletAddress w,
      inv_recipient = r_wallet recipient,
      inv_amount = r_amount recipient,
      inv_note = (case orUndefined (r_note recipient) of
                    Some n \<Rightarrow> ''Batch payment: '' @ n
                  | None \<Rightarrow> ''Batch payment ('' @ localeDateString w @ '')''),
      inv_status = InvoicePaid,
      inv_teamId = orUndefined team,
      inv_createdBy = (case orUndefined team of Some t \<Rightarrow> Some (walletAddress w) | None \<Rightarrow> None),
      inv_txSignature = r_txSignature recipient\<rparr>"

text \<open>
  The loop that writes one invoice per paid recipient. A failure of \<^verbatim>\<open>saveInvoice\<close> is
  caught inside the loop and only written to the console.
\<close>

fun createInvoices :: "world \<Rightarrow> string option \<Rightarrow> BatchRecipient list \<Rightarrow> hook_state \<Rightarrow> hook_state" where
  "createInvoices w team [] s = s"
| "createInvoices w team (recipient # rest) s =
    (let s1 = emit [EvSaveInvoice (batchInvoice w team recipient)]
                (s\<lparr>invoiceSaves := invoiceSaves s + 1\<rparr>)
     in case saveInvoiceResult w (invoiceSaves s) of
          None \<Rightarrow> createInvoices w team rest s1
        | Some invoiceErr \<Rightarrow> createInvoices w team rest s1)"

definition batchTotalLamports :: "BatchRecipientInput list \<Rightarrow> int" where
  \<comment> \<open>\<^verbatim>\<open>sanitizedRecipients.reduce((sum, r) => sum + r.amount, 0)\<close>, additions of numbers\<close>
  "batchTotalLamports sanitized = foldl (\<lambda>sum r. js_add_int sum (in_amount r)) 0 sanitized"

text \<open>The body of the \<^verbatim>\<open>try\<close> of \<^verbatim>\<open>executeBatch\<close>: \<open>Inl\<close> is what it throws, \<open>Inr\<close> the batch.\<close>

definition executeBatchBody ::
  "world \<Rightarrow> ExecuteBatchOptions \<Rightarrow> hook_state \<Rightarrow> (thrown + BatchPayment) \<times> hook_state" where
  "executeBatchBody w opts s =
    (if sanitizedRecipients (recipients opts) = [] then
       (Inl (Sento (SentoError INVALID_ADDRESS None None)), s)
     else
       (case autoCompress w (batchTotalLamports (sanitizedRecipients (recipients opts))) s of
          (Inl e, s1) \<Rightarrow> (Inl e, s1)
        | (Inr compressedBalance, s1) \<Rightarrow>
           (case processAll w (map toBatchRecipient (sanitizedRecipients (recipients opts))) s1 of
              (batchRecipients, s2) \<Rightarrow>
                let batch = \<lparr>b_creatorWallet = walletAddress w,
                             b_teamId = orUndefined (teamId opts),
                             b_totalAmount = batchTotalLamports (sanitizedRecipients (recipients opts)),
                             b_proofHash = proofHash opts,
                             b_status = batchStatus batchRecipients,
                             b_recipients = batchRecipients\<rparr>;
                    s3 = emit [EvSaveBatchPayment batch] s2
                in (case saveBatchPaymentResult w of
                      Some m \<Rightarrow> (Inl (JsError m), s3)
                    | None \<Rightarrow>
                        (Inr batch,
                         createInvoices w (teamId opts)
                           (filter (\<lambda>r. r_status r = Paid) batchRecipients) s3)))))"

text \<open>
  \<^verbatim>\<open>executeBatch\<close> returns the batch or \<^verbatim>\<open>null\<close> (\<open>None\<close>); what it caught is left in the
  hook's \<^verbatim>\<open>error\<close> state.
\<close>

definition executeBatch ::
  "world \<Rightarrow> ExecuteBatchOptions \<Rightarrow> hook_state \<Rightarrow> BatchPayment option \<times> hook_state" where
  "executeBatch w opts s =
    (if \<not> walletConnected w then
       (None, s\<lparr>hookError := Some (SentoError WALLET_NOT_CONNECTED None None)\<rparr>)
     else
       (case executeBatchBody w opts (s\<lparr>hookError := None\<rparr>) of
          (Inr batch, s') \<Rightarrow> (Some batch, s')
        | (Inl err, s') \<Rightarrow> (None, s'\<lparr>hookError := Some (parseError err)\<rparr>)))"


section \<open>Observing a run\<close>

text \<open>
  The recipient and the amount of an event that belongs to a private transfer (the call
  of \<^verbatim>\<open>transferCompressedSOL\<close> or the instruction it submits).
\<close>

fun transferTarget :: "event \<Rightarrow> (string \<times> int) option" where
  "transferTarget (EvTransferCompressedSOL recipient lamportsAmount) = Some (recipient, lamportsAmount)"
| "transferTarget (EvSubmitTransfer recipient lamportsAmount inputs) = Some (recipient, lamportsAmount)"
| "transferTarget e = None"

definition targets_in :: "(string \<times> int) set \<Rightarrow> event \<Rightarrow> bool" where
  \<comment> \<open>the event is no transfer, or a transfer to one of the targets\<close>
  "targets_in T e = (case transferTarget e of None \<Rightarrow> True | Some t \<Rightarrow> t \<in> T)"

definition extends_by :: "(event \<Rightarrow> bool) \<Rightarrow> hook_state \<Rightarrow> hook_state \<Rightarrow> bool" where
  \<comment> \<open>the effects of \<open>s'\<close> are those of \<open>s\<close> followed by events that all satisfy \<open>P\<close>\<close>
  "extends_by P s s' =
     (take (length (trace s)) (trace s') = trace s \<and> list_all P (drop (length (trace s)) (trace s')))"

fun isTransferCall :: "event \<Rightarrow> bool" where
  "isTransferCall (EvTransferCompressedSOL recipient lamportsAmount) = True"
| "isTransferCall e = False"


definition transferAttempts :: "hook_state \<Rightarrow> nat" where
  \<comment> \<open>how many times \<^verbatim>\<open>transferCompressedSOL\<close> was called\<close>
  "transferAttempts s = length (filter isTransferCall (trace s))"


text \<open>The two outcomes of a recipient of a batch.\<close>

definition paidOutcome :: "BatchRecipient \<Rightarrow> string \<Rightarrow> BatchRecipient" where
  "paidOutcome recipient signature = recipient\<lparr>r_status := Paid, r_txSignature := Some signature\<rparr>"

definition failedOutcome :: "BatchRecipient \<Rightarrow> thrown \<Rightarrow> BatchRecipient" where
  "failedOutcome recipient err =
     recipient\<lparr>r_status := Failed, r_error := Some (userMessage (parseError err))\<rparr>"

subsection \<open>Concrete worlds\<close>

definition initial :: hook_state where
  "initial = \<lparr>accountReads = 0, submissions = 0, invoiceSaves = 0, trace = [], hookError = None\<rparr>"

definition demo_world ::
  "(nat \<Rightarrow> string + account list) \<Rightarrow> (string + int) \<Rightarrow> (nat \<Rightarrow> string + string)
     \<Rightarrow> (nat \<Rightarrow> string option) \<Rightarrow> world" where
  "demo_world accounts balance submit saveInv =
     \<lparr>walletConnected = True,
      walletAddress = ''SSSSSSSSSSSSSSSSSSSSSSSSSSSSSSSS'',
      newPublicKey = (\<lambda>k. None),
      getCompressedAccountsByOwner = accounts,
      getBalance = balance,
      sendAndConfirm = submit,
      saveBatchPaymentResult = None,
      saveInvoiceResult = saveInv,
      numberToString = (\<lambda>x. ''?''),
      localeDateString = ''1/1/2026''\<rparr>"

definition demo_recipient :: "string \<Rightarrow> int \<Rightarrow> BatchRecipientInput" where
  "demo_recipient wallet amount = \<lparr>in_wallet = wallet, in_amount = amount, in_note = None\<rparr>"

definition demo_batch :: "BatchRecipientInput list \<Rightarrow> ExecuteBatchOptions" where
  "demo_batch rs = \<lparr>recipients = rs, teamId = None, proofHash = None\<rparr>"

definition three_recipients :: "BatchRecipientInput list" where
  "three_recipients =
     [demo_recipient ''AAAAAAAAAAAAAAAAAAAAAAAAAAAAAAAA'' 10,
      demo_recipient ''BBBBBBBBBBBBBBBBBBBBBBBBBBBBBBBB'' 10,
      demo_recipient ''CCCCCCCCCCCCCCCCCCCCCCCCCCCCCCCC'' 10]"

text \<open>
  A sender with 100 lamports in one compressed account; the second submission fails, the
  others succeed.
\<close>

definition mixed_world :: "(nat \<Rightarrow> string option) \<Rightarrow> world" where
  "mixed_world saveInv = demo_world (\<lambda>k. Inr [\<lparr>acc_hash = ''h'', acc_lamports = 100\<rparr>]) (Inr 0)
     (\<lambda>k. if k = 1 then Inl ''boom'' else Inr ''sig'') saveInv"

definition demo_invoice :: "string \<Rightarrow> int \<Rightarrow> Invoice" where
  "demo_invoice recipient amount =
     \<lparr>inv_sender = ''RRRRRRRRRRRRRRRRRRRRRRRRRRRRRRRR'', inv_recipient = recipient,
      inv_amount = amount, inv_note = ''demo'', inv_status = InvoiceUnpaid,
      inv_teamId = None, inv_createdBy = None, inv_txSignature = None\<rparr>"

definition fee_on :: fee_config where
  "fee_on = \<lparr>PLATFORM_FEE_WALLET = ''FFFFFFFFFFFFFFFFFFFFFFFFFFFFFFFF'', PLATFORM_FEE_ENABLED = True\<rparr>"

definition fee_off :: fee_config where
  "fee_off = \<lparr>PLATFORM_FEE_WALLET = [], PLATFORM_FEE_ENABLED = False\<rparr>"


text \<open>A sender with a million private lamports; the first submission succeeds, the next ones fail.\<close>

definition fee_leg_world :: world where
  "fee_leg_world = demo_world (\<lambda>k. Inr [\<lparr>acc_hash = ''h'', acc_lamports = 1000000\<rparr>]) (Inr 0)
     (\<lambda>k. if k = 0 then Inr ''sig'' else Inl ''fee leg rejected'') (\<lambda>k. None)"

text \<open>A sender with 100 private lamports; every submission fails with the given message.\<close>

definition failing_world :: "string \<Rightarrow> world" where
  "failing_world message = demo_world (\<lambda>k. Inr [\<lparr>acc_hash = ''h'', acc_lamports = 100\<rparr>]) (Inr 0)
     (\<lambda>k. Inl message) (\<lambda>k. None)"

definition congestion_message :: string where
  "congestion_message = ''custom program error: 0x232a''"

definition rejection_message :: string where
  "rejection_message = ''custom program error: 0x1''"

definition demo_batch_recipient :: BatchRecipient where
  "demo_batch_recipient = toBatchRecipient (demo_recipient ''AAAAAAAAAAAAAAAAAAAAAAAAAAAAAAAA'' 10)"

text \<open>
  A sender with no private lamports and one SOL of public balance; every submission
  succeeds, and after the first read the indexer shows one account of \<open>n\<close> lamports.
\<close>

definition topup_world :: "int \<Rightarrow> world" where
  "topup_world n = demo_world (\<lambda>k. if k = 0 then Inr [] else Inr [\<lparr>acc_hash = ''h'', acc_lamports = n\<rparr>])
     (Inr 1000000000) (\<lambda>k. Inr ''sig'') (\<lambda>k. None)"

text \<open>
  A sender with 3000 private lamports in one account and one SOL of public balance; every
  submission succeeds. After the first read the indexer also shows the account of 14
  lamports that the top-up created, and from the fourth read on (after the transfer of
  3000) only that account is left.
\<close>

definition fee_short_world :: world where
  "fee_short_world = demo_world
     (\<lambda>k. if k = 0 then Inr [\<lparr>acc_hash = ''h'', acc_lamports = 3000\<rparr>]
          else if k < 3 then Inr [\<lparr>acc_hash = ''h'', acc_lamports = 3000\<rparr>,
                                  \<lparr>acc_hash = ''c'', acc_lamports = 14\<rparr>]
          else Inr [\<lparr>acc_hash = ''c'', acc_lamports = 14\<rparr>])
     (Inr 1000000000) (\<lambda>k. Inr ''sig'') (\<lambda>k. None)"


text \<open>
  A string of 44 base58 characters that \<^verbatim>\<open>PublicKey\<close> does not accept (it decodes to 33
  bytes), and the sender of \<open>topup_world 20\<close> in a world whose \<^verbatim>\<open>PublicKey\<close> refuses it; the
  batch is the one \<^verbatim>\<open>executeBatch\<close> returns for a request of 20 lamports to that string.
\<close>

definition lookalike :: string where
  "lookalike = replicate 44 (CHR ''z'')"

definition lookalike_world :: world where
  "lookalike_world = (topup_world 20)\<lparr>newPublicKey :=
     (\<lambda>address. if address = lookalike then Some ''Invalid public key input'' else None)\<rparr>"

definition lookalike_batch :: BatchPayment where
  "lookalike_batch =
     \<lparr>b_creatorWallet = ''SSSSSSSSSSSSSSSSSSSSSSSSSSSSSSSS'', b_teamId = None, b_totalAmount = 20,
      b_proofHash = None, b_status = BatchFailed,
      b_recipients = [\<lparr>r_wallet = lookalike, r_amount = 20, r_note = None, r_status = Failed,
                       r_txSignature = None,
                       r_error = Some ''An unexpected error occurred. Please try again.''\<rparr>]\<rparr>"

section \<open>Rounding to binary64: bounds\<close>

lemma bitlen_powi_bounds:
  assumes "0 < a"
  shows "(2::rat) powi (bitlen a - 1) \<le> of_int a" and "of_int a < (2::rat) powi (bitlen a)"
proof -
  have ge1: "1 \<le> bitlen a" using assms by (simp add: bitlen_alt_def)
  have b: "2 ^ nat (bitlen a - 1) \<le> a" "a < 2 ^ nat (bitlen a)"
    using bitlen_bounds[OF assms] by auto
  have "(of_int (2 ^ nat (bitlen a - 1)) :: rat) \<le> of_int a"
    using b(1) of_int_le_iff by blast
  then show "(2::rat) powi (bitlen a - 1) \<le> of_int a"
    using ge1 by (simp add: power_int_def)
  have "(of_int a :: rat) < of_int (2 ^ nat (bitlen a))"
    using b(2) of_int_less_iff by blast
  then show "of_int a < (2::rat) powi (bitlen a)"
    using ge1 by (simp add: power_int_def)
qed

lemma ilog2_bounds:
  assumes "0 < q"
  shows "2 powi (ilog2 q) \<le> q" and "q < 2 powi (ilog2 q + 1)"
proof -
  obtain a b where ab: "quotient_of q = (a, b)" by (cases "quotient_of q")
  have bpos: "0 < b" using ab quotient_of_denom_pos by blast
  have q: "q = of_int a / of_int b" using ab quotient_of_div by blast
  have apos: "0 < a" using assms bpos q by (simp add: zero_less_divide_iff)
  define d where "d = bitlen a - bitlen b"
  have up: "q < 2 powi (d + 1)"
  proof -
    have "q < 2 powi (bitlen a) / of_int b"
      unfolding q using bitlen_powi_bounds(2)[OF apos] bpos by (simp add: divide_strict_right_mono)
    also have "\<dots> \<le> 2 powi (bitlen a) / 2 powi (bitlen b - 1)"
      using bitlen_powi_bounds(1)[OF bpos] by (simp add: frac_le)
    also have "\<dots> = 2 powi (d + 1)"
      by (simp add: d_def power_int_diff[symmetric] algebra_simps)
    finally show ?thesis .
  qed
  have lo: "2 powi (d - 1) \<le> q"
  proof -
    have "(2::rat) powi (d - 1) = 2 powi (bitlen a - 1) / 2 powi (bitlen b)"
      by (simp add: d_def power_int_diff[symmetric] algebra_simps)
    also have "\<dots> \<le> of_int a / 2 powi (bitlen b)"
      using bitlen_powi_bounds(1)[OF apos] by (simp add: divide_right_mono)
    also have "\<dots> \<le> of_int a / of_int b"
      using bitlen_powi_bounds(2)[OF bpos] apos bpos by (simp add: frac_le)
    finally show ?thesis using q by simp
  qed
  have il: "ilog2 q = (if 2 powi d \<le> q then d else d - 1)"
    by (simp add: ilog2_def ab d_def Let_def)
  show "2 powi (ilog2 q) \<le> q" using il lo by auto
  show "q < 2 powi (ilog2 q + 1)" using il up by (auto simp: not_le)
qed

lemma ilog2_less:
  assumes "0 < q" "q < 2 powi n"
  shows "ilog2 q < n"
proof (rule ccontr)
  assume "\<not> ilog2 q < n"
  then have "n \<le> ilog2 q" by simp
  then have "(2::rat) powi n \<le> 2 powi (ilog2 q)"
    by (simp add: power_int_increasing)
  with ilog2_bounds(1)[OF assms(1)] assms(2) show False by simp
qed

lemma ilog2_ge:
  assumes "0 < q" "2 powi n \<le> q"
  shows "n \<le> ilog2 q"
proof (rule ccontr)
  assume "\<not> n \<le> ilog2 q"
  then have "ilog2 q + 1 \<le> n" by simp
  then have "(2::rat) powi (ilog2 q + 1) \<le> 2 powi n"
    by (simp add: power_int_increasing)
  with ilog2_bounds(2)[OF assms(1)] assms(2) show False by simp
qed

lemma round_half_even_bounds:
  "of_int (round_half_even y) \<le> y + 1 / 2" "y - 1 / 2 \<le> of_int (round_half_even y)"
proof -
  define f where "f = \<lfloor>y\<rfloor>"
  have f: "of_int f \<le> y" "y < of_int f + 1" unfolding f_def by linarith+
  have r: "round_half_even y = (if y - of_int f < 1 / 2 then f else if 1 / 2 < y - of_int f then f + 1
      else if even f then f else f + 1)"
    by (simp add: round_half_even_def Let_def f_def)
  show "of_int (round_half_even y) \<le> y + 1 / 2"
    unfolding r using f by (simp split: if_splits)
  show "y - 1 / 2 \<le> of_int (round_half_even y)"
    unfolding r using f by (simp split: if_splits)
qed

lemma round_half_even_ge:
  assumes "of_int j \<le> y"
  shows "j \<le> round_half_even y"
proof -
  have "j \<le> \<lfloor>y\<rfloor>" using assms by (simp add: le_floor_iff)
  then show ?thesis by (auto simp: round_half_even_def Let_def)
qed

lemma round_half_even_of_int [simp]: "round_half_even (of_int j) = j"
  by (simp add: round_half_even_def)


lemma ulp_pos: "0 < ulp q"
  by (simp add: ulp_def)

lemma fl_pos_eq: "0 < q \<Longrightarrow> fl q = of_int (round_half_even (q / ulp q)) * ulp q"
  by (simp add: fl_def)

lemma fl_upper: 
  assumes "0 < q"
  shows "fl q \<le> q + ulp q / 2"
proof -
  have "of_int (round_half_even (q / ulp q)) * ulp q \<le> (q / ulp q + 1 / 2) * ulp q"
    using round_half_even_bounds(1)[of "q / ulp q"] ulp_pos[of q]
    by (simp add: mult_right_mono)
  also have "\<dots> = q + ulp q / 2"
    using ulp_pos[of q] by (simp add: algebra_simps)
  finally show ?thesis using assms by (simp add: fl_pos_eq)
qed

lemma ulp_le:
  assumes "0 < q" "q < 2 powi n" "- 1021 \<le> n"
  shows "ulp q \<le> 2 powi (n - 53)"
proof -
  have "ilog2 q < n" using ilog2_less assms by blast
  then have "max (ilog2 \<bar>q\<bar> - 52) (- 1074) \<le> n - 53"
    using assms by simp
  then show ?thesis
    unfolding ulp_def by (simp add: power_int_increasing)
qed

lemma ulp_inverse_int:
  assumes "0 < q" "q < 2 ^ 53"
  shows "\<exists>m::nat. ulp q = 1 / 2 ^ m"
proof -
  have "q < 2 powi 53" using assms by simp
  then have "ilog2 q < 53" using ilog2_less assms(1) by blast
  then have le0: "max (ilog2 \<bar>q\<bar> - 52) (- 1074) \<le> 0" using assms(1) by simp
  define m where "m = nat (- max (ilog2 \<bar>q\<bar> - 52) (- 1074))"
  have e: "max (ilog2 \<bar>q\<bar> - 52) (- 1074) = - int m"
    using le0 by (simp add: m_def)
  have "ulp q = 2 powi (- int m)" by (simp only: ulp_def e)
  also have "\<dots> = 1 / 2 ^ m"
    by (simp only: power_int_minus_divide power_int_of_nat)
  finally show ?thesis by blast
qed

lemma fl_ge_int:
  assumes "0 < q" "q < 2 ^ 53" "of_int k \<le> q"
  shows "of_int k \<le> fl q"
proof -
  obtain m :: nat where m: "ulp q = 1 / 2 ^ m" using ulp_inverse_int assms by blast
  have "of_int (k * 2 ^ m) \<le> q / ulp q"
    using assms(3) by (simp add: m mult_right_mono)
  then have "k * 2 ^ m \<le> round_half_even (q / ulp q)"
    by (rule round_half_even_ge)
  then have "(of_int (k * 2 ^ m) :: rat) \<le> of_int (round_half_even (q / ulp q))"
    using of_int_le_iff by blast
  then have "(of_int (k * 2 ^ m) :: rat) * ulp q \<le> of_int (round_half_even (q / ulp q)) * ulp q"
    using ulp_pos[of q] by (simp only: mult_right_mono less_imp_le)
  moreover have "(of_int (k * 2 ^ m) :: rat) * ulp q = of_int k" by (simp add: m)
  ultimately have "of_int k \<le> of_int (round_half_even (q / ulp q)) * ulp q"
    by (simp only:)
  then show ?thesis by (simp only: fl_pos_eq[OF assms(1)])
qed

lemma fl_of_int_pos:
  assumes "0 < n" "n < 2 ^ 53"
  shows "fl (of_int n) = of_int n"
proof -
  let ?q = "of_int n :: rat"
  have q: "0 < ?q" "?q < 2 ^ 53" using assms
    by (simp, metis of_int_less_iff of_int_numeral of_int_power)
  obtain m :: nat where m: "ulp ?q = 1 / 2 ^ m" using ulp_inverse_int q by blast
  have "?q / ulp ?q = of_int (n * 2 ^ m)" by (simp add: m)
  then have "round_half_even (?q / ulp ?q) = n * 2 ^ m"
    by (metis round_half_even_of_int)
  then show ?thesis using q(1) by (simp add: fl_pos_eq m)
qed

lemma SENTO_FEE_PERCENTAGE_value: "SENTO_FEE_PERCENTAGE = 5764607523034235 / 2 ^ 60"
  unfolding SENTO_FEE_PERCENTAGE_def by code_simp

lemma fee_rate_bounds:
  "1 / 200 \<le> SENTO_FEE_PERCENTAGE" "SENTO_FEE_PERCENTAGE \<le> 1 / 200 + 1 / 2 ^ 63"
  unfolding SENTO_FEE_PERCENTAGE_value by simp_all

lemma fee_floor_exact:
  assumes "0 \<le> x" "x < 2 ^ 53"
  shows "\<lfloor>fl (of_int x * SENTO_FEE_PERCENTAGE)\<rfloor> = x div 200"
proof (cases "x = 0")
  case True
  then show ?thesis by (simp add: fl_def)
next
  case False
  define k where "k = x div 200"
  define c where "c = SENTO_FEE_PERCENTAGE"
  define r where "r = (of_int x :: rat)"
  define q where "q = r * c"
  have c: "1 / 200 \<le> c" "c \<le> 1 / 200 + 1 / 2 ^ 63"
    unfolding c_def by (rule fee_rate_bounds)+
  have xpos: "0 < x" using assms False by simp
  have "x \<le> 2 ^ 53" using assms by simp
  then have "r \<le> of_int (2 ^ 53)" unfolding r_def by (simp only: of_int_le_iff)
  then have r53: "r \<le> 9007199254740992" by simp
  have rpos: "0 < r" unfolding r_def using xpos by simp
  have xk: "200 * k \<le> x" "x \<le> 200 * k + 199" unfolding k_def by presburger+
  have "(of_int (200 * k) :: rat) \<le> r" unfolding r_def using xk(1) by (simp only: of_int_le_iff)
  then have rk1: "200 * of_int k \<le> r" by simp
  have "r \<le> of_int (200 * k + 199)" unfolding r_def using xk(2) by (simp only: of_int_le_iff)
  then have rk2: "r \<le> 200 * of_int k + 199" by simp
  have q1: "r * (1 / 200) \<le> q" unfolding q_def using c(1) rpos by (simp only: mult_left_mono less_imp_le)
  have q2: "q \<le> r * (1 / 200 + 1 / 2 ^ 63)" unfolding q_def using c(2) rpos by (simp only: mult_left_mono less_imp_le)
  have q1': "r / 200 \<le> q" using q1 by simp
  have q2': "q \<le> r / 200 + r / 9223372036854775808" using q2 by (simp add: algebra_simps)
  have qpos: "0 < q" using q1' rpos by linarith
  have lo: "of_int k \<le> q" using q1' rk1 by linarith
  have "q < 70368744177664" using q2' r53 by linarith
  then have q46: "q < 2 powi 46" by simp
  have "q < 9007199254740992" using q2' r53 by linarith
  then have q53: "q < 2 ^ 53" by simp
  have "ulp q \<le> 2 powi (46 - 53)" using ulp_le[OF qpos q46] by simp
  then have u: "ulp q \<le> 1 / 128" by (simp add: power_int_minus_divide)
  have hi: "q + ulp q / 2 < of_int k + 1" using q2' r53 rk2 u by linarith
  have "of_int k \<le> fl q" using fl_ge_int[OF qpos q53 lo] .
  moreover have "fl q < of_int k + 1" using fl_upper[OF qpos] hi by linarith
  ultimately have "\<lfloor>fl q\<rfloor> = k" by (simp only: floor_unique)
  then show ?thesis by (simp only: q_def k_def r_def c_def)
qed



section \<open>Rounding to binary64: relative error\<close>

lemma fl_lower:
  assumes "0 < q"
  shows "q - ulp q / 2 \<le> fl q"
proof -
  have "(q / ulp q - 1 / 2) * ulp q \<le> of_int (round_half_even (q / ulp q)) * ulp q"
    using round_half_even_bounds(2)[of "q / ulp q"] ulp_pos[of q]
    by (simp only: mult_right_mono less_imp_le)
  moreover have "(q / ulp q - 1 / 2) * ulp q = q - ulp q / 2"
    using ulp_pos[of q] by (simp add: algebra_simps)
  ultimately show ?thesis using assms by (simp add: fl_pos_eq)
qed

lemma ulp_rel:
  assumes "0 < q" "2 powi (- 1022) \<le> q"
  shows "ulp q \<le> q / 2 ^ 52"
proof -
  have "- 1022 \<le> ilog2 q" using ilog2_ge[OF assms] .
  then have "max (ilog2 \<bar>q\<bar> - 52) (- 1074) = ilog2 q - 52" using assms(1) by simp
  then have "ulp q = 2 powi (ilog2 q - 52)" by (simp only: ulp_def)
  also have "\<dots> = 2 powi (ilog2 q) / 2 ^ 52" by (simp add: power_int_diff)
  also have "\<dots> \<le> q / 2 ^ 52" using ilog2_bounds(1)[OF assms(1)] by (simp add: divide_right_mono)
  finally show ?thesis .
qed

lemma tiny_le: "(2::rat) powi (- 1022) \<le> 1 / 2 ^ 40"
proof -
  have "(2::rat) powi (- 1022) \<le> 2 powi (- 40)" by (rule power_int_increasing) simp_all
  then show ?thesis by (simp add: power_int_minus_divide)
qed

lemma fl_rel:
  assumes "1 / 2 ^ 40 \<le> q"
  shows "q - q / 2 ^ 53 \<le> fl q" "fl q \<le> q + q / 2 ^ 53"
proof -
  have pos: "0 < q" using assms by (smt (verit) divide_pos_pos zero_less_numeral zero_less_one zero_less_power less_le_trans)
  have "2 powi (- 1022) \<le> q" using tiny_le assms by linarith
  then have u: "ulp q \<le> q / 2 ^ 52" using ulp_rel pos by blast
  show "q - q / 2 ^ 53 \<le> fl q" using fl_lower[OF pos] u by simp
  show "fl q \<le> q + q / 2 ^ 53" using fl_upper[OF pos] u by simp
qed

section \<open>Sums of integer-valued numbers\<close>

lemma ilog2_of_int_nonneg:
  assumes "0 < n"
  shows "0 \<le> ilog2 (of_int n)"
proof -
  have "(2::rat) powi 0 \<le> of_int n" using assms by simp
  then show ?thesis using ilog2_ge[of "of_int n" 0] assms by simp
qed

lemma fl_of_nat_integral:
  assumes "0 < n"
  shows "\<exists>k. fl (of_int n) = of_int k"
proof -
  let ?q = "of_int n :: rat"
  have q: "0 < ?q" using assms by simp
  define e where "e = ilog2 ?q"
  have e0: "0 \<le> e" unfolding e_def by (rule ilog2_of_int_nonneg[OF assms])
  have u: "ulp ?q = 2 powi (e - 52)"
    using e0 q by (simp add: ulp_def e_def)
  show ?thesis
  proof (cases "52 \<le> e")
    case True
    define m where "m = nat (e - 52)"
    have "e - 52 = int m" using True by (simp add: m_def)
    then have "ulp ?q = 2 ^ m" unfolding u by (simp only: power_int_of_nat)
    then have "fl ?q = of_int (round_half_even (?q / ulp ?q) * 2 ^ m)"
      using q by (simp add: fl_pos_eq)
    then show ?thesis by blast
  next
    case False
    then have "e < 52" by simp
    then have "(2::rat) powi (e + 1) \<le> 2 powi 53"
      by (intro power_int_increasing) simp_all
    then have "?q < 2 powi 53"
      using ilog2_bounds(2)[OF q] unfolding e_def[symmetric] by linarith
    then have "?q < of_int (2 ^ 53)" by simp
    then have "n < 2 ^ 53" by (simp only: of_int_less_iff)
    then have "fl ?q = of_int n" using fl_of_int_pos[OF assms] by simp
    then show ?thesis by blast
  qed
qed

lemma fl_uminus: "fl (- q) = - fl q"
  by (simp add: fl_def ulp_def)

lemma fl_of_int_integral: "\<exists>k. fl (of_int n) = of_int k"
proof -
  consider "n = 0" | "0 < n" | "n < 0" by linarith
  then show ?thesis
  proof cases
    case 1
    then show ?thesis by (simp add: fl_def)
  next
    case 2
    then show ?thesis by (rule fl_of_nat_integral)
  next
    case 3
    then have "0 < - n" by simp
    then obtain k where "fl (of_int (- n)) = of_int k" using fl_of_nat_integral by blast
    then have "fl (of_int n) = of_int (- k)" using fl_uminus[of "of_int n"] by simp
    then show ?thesis by blast
  qed
qed

lemma floor_fl_of_int: "of_int \<lfloor>fl (of_int n)\<rfloor> = fl (of_int n)"
proof -
  obtain k where "fl (of_int n) = of_int k" using fl_of_int_integral by blast
  then show ?thesis by simp
qed

lemma fl_of_int_nonneg:
  assumes "0 \<le> n" "n < 2 ^ 53"
  shows "fl (of_int n) = of_int n"
  using assms fl_of_int_pos[of n] by (cases "n = 0") (simp_all add: fl_def)

lemma js_add_int_value: "of_int (js_add_int x y) = js_add (of_int x) (of_int y)"
proof -
  have "js_add (of_int x) (of_int y) = fl (of_int (x + y))" by (simp add: js_add_def)
  then show ?thesis unfolding js_add_int_def using floor_fl_of_int[of "x + y"] by simp
qed

lemma js_add_int_exact:
  assumes "0 \<le> x + y" "x + y < 2 ^ 53"
  shows "js_add_int x y = x + y"
proof -
  have "js_add (of_int x) (of_int y) = fl (of_int (x + y))" by (simp add: js_add_def)
  also have "\<dots> = of_int (x + y)" using fl_of_int_nonneg[OF assms] .
  finally show ?thesis by (simp add: js_add_int_def)
qed

lemma foldl_js_add_int_exact:
  assumes "\<forall>r \<in> set rs. 0 \<le> in_amount r" "0 \<le> acc" "acc + sum_list (map in_amount rs) < 2 ^ 53"
  shows "foldl (\<lambda>sum r. js_add_int sum (in_amount r)) acc rs = acc + sum_list (map in_amount rs)"
  using assms
proof (induction rs arbitrary: acc)
  case Nil
  then show ?case by simp
next
  case (Cons r rs)
  have nn: "0 \<le> in_amount r" "0 \<le> sum_list (map in_amount rs)"
    using Cons.prems(1) by (simp, intro sum_list_nonneg, auto)
  have step: "js_add_int acc (in_amount r) = acc + in_amount r"
    using js_add_int_exact[of acc "in_amount r"] Cons.prems(2,3) nn by simp
  have "foldl (\<lambda>sum r. js_add_int sum (in_amount r)) (acc + in_amount r) rs
      = (acc + in_amount r) + sum_list (map in_amount rs)"
    using Cons.IH[of "acc + in_amount r"] Cons.prems nn by simp
  then show ?case using step by simp
qed

lemma batchTotalLamports_exact:
  assumes "\<forall>r \<in> set rs. 0 \<le> in_amount r" "sum_list (map in_amount rs) < 2 ^ 53"
  shows "batchTotalLamports rs = sum_list (map in_amount rs)"
  using foldl_js_add_int_exact[OF assms(1), of 0] assms(2) by (simp add: batchTotalLamports_def)

lemma sanitized_total_exact:
  assumes "sum_list (map in_amount (sanitizedRecipients rs)) < 2 ^ 53"
  shows "batchTotalLamports (sanitizedRecipients rs) = sum_list (map in_amount (sanitizedRecipients rs))"
  using assms by (intro batchTotalLamports_exact) (auto simp: sanitizedRecipients_def)

section \<open>What each operation adds to the effects\<close>

lemma extends_by_iff: "extends_by P s s' \<longleftrightarrow> (\<exists>evs. trace s' = trace s @ evs \<and> list_all P evs)"
proof
  assume "extends_by P s s'"
  then have "trace s' = trace s @ drop (length (trace s)) (trace s')"
    "list_all P (drop (length (trace s)) (trace s'))"
    unfolding extends_by_def by (metis append_take_drop_id, simp)
  then show "\<exists>evs. trace s' = trace s @ evs \<and> list_all P evs" by blast
next
  assume "\<exists>evs. trace s' = trace s @ evs \<and> list_all P evs"
  then show "extends_by P s s'" unfolding extends_by_def by auto
qed

lemma extends_by_refl: "trace s' = trace s \<Longrightarrow> extends_by P s s'"
  by (simp add: extends_by_iff)

lemma extends_by_trans: "extends_by P s s1 \<Longrightarrow> extends_by P s1 s2 \<Longrightarrow> extends_by P s s2"
  unfolding extends_by_iff by auto

lemma extends_by_mono: "extends_by P s s' \<Longrightarrow> (\<And>e. P e \<Longrightarrow> Q e) \<Longrightarrow> extends_by Q s s'"
  unfolding extends_by_iff by (auto simp: list_all_iff)

lemma extends_by_emit: "list_all P evs \<Longrightarrow> trace s1 = trace s \<Longrightarrow> extends_by P s (emit evs s1)"
  by (simp add: extends_by_iff emit_def)

lemma extends_by_left: "trace s0 = trace s \<Longrightarrow> extends_by P s s' \<Longrightarrow> extends_by P s0 s'"
  by (simp add: extends_by_iff)

lemma targets_in_mono: "targets_in T e \<Longrightarrow> T \<subseteq> T' \<Longrightarrow> targets_in T' e"
  by (auto simp: targets_in_def split: option.splits)

lemma transfer_extends:
  assumes "transferCompressedSOL w recipient amount s = (res, s')"
  shows "extends_by (targets_in {(recipient, amount)}) s s'"
  using assms
  by (auto simp: transferCompressedSOL_def Let_def extends_by_iff emit_def targets_in_def
      split: sum.splits if_splits prod.splits)

lemma retryLoop_extends:
  "retryLoop w r n e s = (res, s') \<Longrightarrow> extends_by (targets_in {(r_wallet r, r_amount r)}) s s'"
proof (induction w r n e s rule: retryLoop.induct)
  case (1 w recipient attempts lastError s)
  show ?case
  proof (cases "attempts < maxAttempts")
    case False
    then show ?thesis using "1.prems" by (simp add: retryLoop.simps extends_by_refl)
  next
    case True
    obtain r1 s1 where t: "transferCompressedSOL w (r_wallet recipient) (r_amount recipient) s = (r1, s1)"
      by (meson surj_pair)
    note x = transfer_extends[OF t]
    show ?thesis
    proof (cases r1)
      case (Inr sig)
      then show ?thesis using "1.prems" True t x by (simp add: retryLoop.simps)
    next
      case (Inl err)
      show ?thesis
      proof (cases "isQueueIssue err \<and> attempts + 1 < maxAttempts")
        case False
        then show ?thesis using "1.prems" True t x Inl by (auto simp: retryLoop.simps)
      next
        case again: True
        have rec: "retryLoop w recipient (attempts + 1) err (emit [EvSleep ((attempts + 1) * 2000)] s1) = (res, s')"
          using "1.prems" True t Inl again by (simp add: retryLoop.simps)
        have y: "extends_by (targets_in {(r_wallet recipient, r_amount recipient)})
                 (emit [EvSleep ((attempts + 1) * 2000)] s1) s'"
          using "1.IH"[OF True t[symmetric] _ _ rec] Inl again by simp
        have z: "extends_by (targets_in {(r_wallet recipient, r_amount recipient)}) s1
                 (emit [EvSleep ((attempts + 1) * 2000)] s1)"
          by (rule extends_by_emit) (simp_all add: targets_in_def)
        show ?thesis using x y z extends_by_trans by blast
      qed
    qed
  qed
qed

lemma processRecipient_extends:
  assumes "processRecipient w r s = (r', s')"
  shows "extends_by (targets_in {(r_wallet r, r_amount r)}) s s'"
proof -
  obtain res s1 where a: "(case newPublicKey w (r_wallet r) of
             Some m \<Rightarrow> (Inl (JsError m), s)
           | None \<Rightarrow> retryLoop w r 0 JsUndefined s) = (res, s1)" by (meson surj_pair)
  have x: "extends_by (targets_in {(r_wallet r, r_amount r)}) s s1"
    using a retryLoop_extends by (auto split: option.splits simp: extends_by_refl)
  have "s' = emit [EvSleep 500] s1"
    using assms a by (auto simp: processRecipient_def split: sum.splits)
  moreover have "extends_by (targets_in {(r_wallet r, r_amount r)}) s1 (emit [EvSleep 500] s1)"
    by (rule extends_by_emit) (simp_all add: targets_in_def)
  ultimately show ?thesis using x extends_by_trans by blast
qed

lemma processAll_extends:
  "processAll w rs s = (rs', s') \<Longrightarrow>
     extends_by (targets_in ((\<lambda>r. (r_wallet r, r_amount r)) ` set rs)) s s'"
proof (induction rs arbitrary: s rs' s')
  case Nil
  then show ?case by (simp add: extends_by_refl)
next
  case (Cons r rs)
  obtain r1 s1 where a: "processRecipient w r s = (r1, s1)" by (meson surj_pair)
  obtain rs2 s2 where b: "processAll w rs s1 = (rs2, s2)" by (meson surj_pair)
  have c: "s' = s2" using Cons.prems a b by simp
  have "extends_by (targets_in ((\<lambda>r. (r_wallet r, r_amount r)) ` set (r # rs))) s s1"
    using processRecipient_extends[OF a] by (rule extends_by_mono) (auto elim: targets_in_mono)
  moreover have "extends_by (targets_in ((\<lambda>r. (r_wallet r, r_amount r)) ` set (r # rs))) s1 s2"
    using Cons.IH[OF b] by (rule extends_by_mono) (auto elim: targets_in_mono)
  ultimately show ?case using c extends_by_trans by blast
qed

lemma getCompressedBalance_extends:
  "getCompressedBalance w s = (b, s') \<Longrightarrow> extends_by (targets_in {}) s s'"
  by (auto simp: getCompressedBalance_def Let_def extends_by_iff emit_def targets_in_def split: sum.splits)

lemma compressSOL_extends:
  "compressSOL w a s = (res, s') \<Longrightarrow> extends_by (targets_in {}) s s'"
  by (auto simp: compressSOL_def Let_def extends_by_iff emit_def targets_in_def split: sum.splits)

lemma autoCompress_extends:
  assumes "autoCompress w amount s = (res, s')"
  shows "extends_by (targets_in {}) s s'"
proof -
  obtain cb s1 where a: "getCompressedBalance w s = (cb, s1)" by (meson surj_pair)
  note x = getCompressedBalance_extends[OF a]
  show ?thesis
  proof (cases "cb < amount")
    case False
    then show ?thesis using assms a x by (simp add: autoCompress_def)
  next
    case True
    have y: "extends_by (targets_in {}) s (emit [EvGetBalance] s1)"
      using x extends_by_emit[of "targets_in {}" "[EvGetBalance]" s1 s1] extends_by_trans
      by (fastforce simp: targets_in_def)
    show ?thesis
    proof (cases "getBalance w")
      case (Inl m)
      then show ?thesis using assms a True y by (simp add: autoCompress_def Let_def)
    next
      case (Inr wb)
      show ?thesis
      proof (cases "of_int wb < totalNeeded (amount - cb)")
        case True
        then show ?thesis using assms a \<open>cb < amount\<close> y Inr by (simp add: autoCompress_def Let_def)
      next
        case False
        obtain r3 s3 where c: "compressSOL w (amountToCompressSOL (amount - cb)) (emit [EvGetBalance] s1) = (r3, s3)"
          by (meson surj_pair)
        note z = compressSOL_extends[OF c]
        show ?thesis
        proof (cases r3)
          case (Inl e)
          then show ?thesis using assms a \<open>cb < amount\<close> y Inr False c z extends_by_trans
            by (auto simp: autoCompress_def Let_def)
        next
          case (Inr sig)
          obtain cb' s4 where d: "getCompressedBalance w (emit [EvSleep 2000] s3) = (cb', s4)"
            by (meson surj_pair)
          have u: "extends_by (targets_in {}) s3 (emit [EvSleep 2000] s3)"
            by (rule extends_by_emit) (simp_all add: targets_in_def)
          have "s' = s4" using assms a \<open>cb < amount\<close> \<open>getBalance w = Inr wb\<close> False c Inr d
            by (simp add: autoCompress_def Let_def)
          then show ?thesis
            using y z u getCompressedBalance_extends[OF d] extends_by_trans by blast
        qed
      qed
    qed
  qed
qed

lemma createInvoices_trace:
  "trace (createInvoices w team rs s) = trace s @ map (\<lambda>r. EvSaveInvoice (batchInvoice w team r)) rs"
  by (induction rs arbitrary: s) (auto simp: Let_def emit_def split: option.splits)

lemma createInvoices_extends: "extends_by (targets_in {}) s (createInvoices w team rs s)"
  by (simp add: extends_by_iff createInvoices_trace list_all_iff targets_in_def)

section \<open>The loop over the recipients\<close>

lemma processRecipient_fields:
  assumes "processRecipient w r s = (r', s')"
  shows "r_wallet r' = r_wallet r" "r_amount r' = r_amount r" "r_note r' = r_note r"
    "r_status r' = Paid \<or> r_status r' = Failed"
  using assms
  by (auto simp: processRecipient_def split: option.splits prod.splits sum.splits)

lemma processAll_fields:
  assumes "processAll w rs s = (rs', s')"
  shows "map r_wallet rs' = map r_wallet rs \<and> map r_amount rs' = map r_amount rs
    \<and> map r_note rs' = map r_note rs
    \<and> (\<forall>r \<in> set rs'. r_status r = Paid \<or> r_status r = Failed)"
  using assms
proof (induction rs arbitrary: s rs' s')
  case Nil
  then show ?case by simp
next
  case (Cons r rs)
  obtain r1 s1 where a: "processRecipient w r s = (r1, s1)" by (cases "processRecipient w r s")
  obtain rs2 s2 where b: "processAll w rs s1 = (rs2, s2)" by (cases "processAll w rs s1")
  have c: "rs' = r1 # rs2" using Cons.prems a b by simp
  show ?case using Cons.IH[OF b] processRecipient_fields[OF a] c by simp
qed

lemma executeBatch_Some:
  assumes "executeBatch w opts s = (Some batch, s')"
  shows "\<exists>cb s1 s2. walletConnected w
    \<and> sanitizedRecipients (recipients opts) \<noteq> []
    \<and> autoCompress w (batchTotalLamports (sanitizedRecipients (recipients opts)))
          (s\<lparr>hookError := None\<rparr>) = (Inr cb, s1)
    \<and> processAll w (map toBatchRecipient (sanitizedRecipients (recipients opts))) s1
          = (b_recipients batch, s2)
    \<and> saveBatchPaymentResult w = None
    \<and> b_status batch = batchStatus (b_recipients batch)
    \<and> s' = createInvoices w (teamId opts)
               (filter (\<lambda>r. r_status r = Paid) (b_recipients batch))
               (emit [EvSaveBatchPayment batch] s2)"
proof -
  have c: "walletConnected w" using assms by (auto simp: executeBatch_def split: if_splits)
  have ne: "sanitizedRecipients (recipients opts) \<noteq> []"
    using assms c by (auto simp: executeBatch_def executeBatchBody_def split: if_splits)
  obtain r1 s1 where ac: "autoCompress w (batchTotalLamports (sanitizedRecipients (recipients opts)))
          (s\<lparr>hookError := None\<rparr>) = (r1, s1)" by (meson surj_pair)
  obtain rs s2 where pa: "processAll w (map toBatchRecipient (sanitizedRecipients (recipients opts))) s1
          = (rs, s2)" by (meson surj_pair)
  obtain cb where cb: "r1 = Inr cb"
    using assms c ne ac by (cases r1) (auto simp: executeBatch_def executeBatchBody_def)
  have sv: "saveBatchPaymentResult w = None"
    using assms c ne ac pa cb
    by (cases "saveBatchPaymentResult w") (auto simp: executeBatch_def executeBatchBody_def Let_def)
  have "batch = \<lparr>b_creatorWallet = walletAddress w,
                 b_teamId = orUndefined (teamId opts),
                 b_totalAmount = batchTotalLamports (sanitizedRecipients (recipients opts)),
                 b_proofHash = proofHash opts,
                 b_status = batchStatus rs,
                 b_recipients = rs\<rparr>
     \<and> s' = createInvoices w (teamId opts) (filter (\<lambda>r. r_status r = Paid) rs)
               (emit [EvSaveBatchPayment batch] s2)"
    using assms c ne ac pa cb sv
    by (auto simp: executeBatch_def executeBatchBody_def Let_def)
  then have "b_recipients batch = rs" "b_status batch = batchStatus rs"
    "s' = createInvoices w (teamId opts) (filter (\<lambda>r. r_status r = Paid) rs)
               (emit [EvSaveBatchPayment batch] s2)" by simp_all
  then show ?thesis using c ne ac pa cb sv by blast
qed

section \<open>The effects of a batch\<close>

lemma extends_by_right: "trace s'' = trace s' \<Longrightarrow> extends_by P s s' \<Longrightarrow> extends_by P s s''"
  by (simp add: extends_by_iff)

lemma executeBatchBody_extends:
  assumes "executeBatchBody w opts s = (res, s')"
  shows "extends_by (targets_in ((\<lambda>r. (in_wallet r, in_amount r)) ` set (sanitizedRecipients (recipients opts)))) s s'"
proof (cases "sanitizedRecipients (recipients opts) = []")
  case True
  then show ?thesis using assms by (simp add: executeBatchBody_def extends_by_refl)
next
  case False
  let ?T = "(\<lambda>r. (in_wallet r, in_amount r)) ` set (sanitizedRecipients (recipients opts))"
  obtain r1 s1 where ac: "autoCompress w (batchTotalLamports (sanitizedRecipients (recipients opts))) s = (r1, s1)"
    by (meson surj_pair)
  have x: "extends_by (targets_in ?T) s s1"
    using autoCompress_extends[OF ac] by (rule extends_by_mono) (auto elim: targets_in_mono)
  show ?thesis
  proof (cases r1)
    case (Inl e)
    then show ?thesis using assms False ac x by (simp add: executeBatchBody_def)
  next
    case (Inr cb)
    obtain rs s2 where pa: "processAll w (map toBatchRecipient (sanitizedRecipients (recipients opts))) s1 = (rs, s2)"
      by (meson surj_pair)
    have "(\<lambda>r. (r_wallet r, r_amount r)) ` set (map toBatchRecipient (sanitizedRecipients (recipients opts))) = ?T"
      by (auto simp: toBatchRecipient_def image_iff)
    then have y: "extends_by (targets_in ?T) s1 s2"
      using processAll_extends[OF pa] by simp
    define batch where "batch = \<lparr>b_creatorWallet = walletAddress w,
                             b_teamId = orUndefined (teamId opts),
                             b_totalAmount = batchTotalLamports (sanitizedRecipients (recipients opts)),
                             b_proofHash = proofHash opts,
                             b_status = batchStatus rs,
                             b_recipients = rs\<rparr>"
    have z: "extends_by (targets_in ?T) s2 (emit [EvSaveBatchPayment batch] s2)"
      by (rule extends_by_emit) (simp_all add: targets_in_def)
    have u: "extends_by (targets_in ?T) (emit [EvSaveBatchPayment batch] s2)
        (createInvoices w (teamId opts) (filter (\<lambda>r. r_status r = Paid) rs) (emit [EvSaveBatchPayment batch] s2))"
      using createInvoices_extends by (rule extends_by_mono) (auto elim: targets_in_mono)
    have "s' = emit [EvSaveBatchPayment batch] s2 \<or> s' = createInvoices w (teamId opts) (filter (\<lambda>r. r_status r = Paid) rs) (emit [EvSaveBatchPayment batch] s2)"
      using assms False ac Inr pa unfolding batch_def
      by (auto simp: executeBatchBody_def Let_def split: option.splits)
    then show ?thesis using x y z u extends_by_trans by blast
  qed
qed

lemma executeBatch_extends:
  "extends_by (targets_in ((\<lambda>r. (in_wallet r, in_amount r)) ` set (sanitizedRecipients (recipients opts))))
     s (snd (executeBatch w opts s))"
proof (cases "walletConnected w")
  case False
  then show ?thesis by (simp add: executeBatch_def extends_by_refl)
next
  case True
  obtain res s1 where b: "executeBatchBody w opts (s\<lparr>hookError := None\<rparr>) = (res, s1)" by (meson surj_pair)
  have x: "extends_by (targets_in ((\<lambda>r. (in_wallet r, in_amount r)) ` set (sanitizedRecipients (recipients opts)))) s s1"
    using executeBatchBody_extends[OF b] by (rule extends_by_left[rotated]) simp
  show ?thesis
  proof (cases res)
    case (Inl e)
    have "snd (executeBatch w opts s) = s1\<lparr>hookError := Some (parseError e)\<rparr>"
      using True b Inl by (simp add: executeBatch_def)
    then show ?thesis using x extends_by_right by simp
  next
    case (Inr batch)
    have "snd (executeBatch w opts s) = s1"
      using True b Inr by (simp add: executeBatch_def)
    then show ?thesis using x by simp
  qed
qed

lemma sanitized_idem: "sanitizedRecipients (sanitizedRecipients rs) = sanitizedRecipients rs"
  by (simp add: sanitizedRecipients_def)

lemma sanitized_valid:
  "r \<in> set (sanitizedRecipients rs) \<Longrightarrow> r \<in> set rs \<and> 0 < in_amount r \<and> isValidPublicKey (in_wallet r)"
  by (simp add: sanitizedRecipients_def)

section \<open>The answers of the invoice store\<close>

lemma saveInv_fields:
  "walletConnected (w\<lparr>saveInvoiceResult := f\<rparr>) = walletConnected w"
  "walletAddress (w\<lparr>saveInvoiceResult := f\<rparr>) = walletAddress w"
  "newPublicKey (w\<lparr>saveInvoiceResult := f\<rparr>) = newPublicKey w"
  "getCompressedAccountsByOwner (w\<lparr>saveInvoiceResult := f\<rparr>) = getCompressedAccountsByOwner w"
  "getBalance (w\<lparr>saveInvoiceResult := f\<rparr>) = getBalance w"
  "sendAndConfirm (w\<lparr>saveInvoiceResult := f\<rparr>) = sendAndConfirm w"
  "saveBatchPaymentResult (w\<lparr>saveInvoiceResult := f\<rparr>) = saveBatchPaymentResult w"
  "numberToString (w\<lparr>saveInvoiceResult := f\<rparr>) = numberToString w"
  "localeDateString (w\<lparr>saveInvoiceResult := f\<rparr>) = localeDateString w"
  by simp_all

lemma saveInv_transfer:
  "transferCompressedSOL (w\<lparr>saveInvoiceResult := f\<rparr>) = transferCompressedSOL w"
  unfolding fun_eq_iff transferCompressedSOL_def saveInv_fields by (intro allI refl)

lemma saveInv_balance:
  "getCompressedBalance (w\<lparr>saveInvoiceResult := f\<rparr>) = getCompressedBalance w"
  unfolding fun_eq_iff getCompressedBalance_def saveInv_fields by (intro allI refl)

lemma saveInv_compress:
  "compressSOL (w\<lparr>saveInvoiceResult := f\<rparr>) = compressSOL w"
  unfolding fun_eq_iff compressSOL_def saveInv_fields by (intro allI refl)

lemma saveInv_autoCompress:
  "autoCompress (w\<lparr>saveInvoiceResult := f\<rparr>) = autoCompress w"
  unfolding fun_eq_iff autoCompress_def saveInv_balance saveInv_compress saveInv_fields
  by (intro allI refl)

lemma saveInv_retryLoop:
  "retryLoop (w\<lparr>saveInvoiceResult := f\<rparr>) r n e s = retryLoop w r n e s"
proof (induction w r n e s rule: retryLoop.induct)
  case (1 w recipient attempts lastError s)
  show ?case
  proof (cases "attempts < maxAttempts")
    case False
    then show ?thesis by (simp add: retryLoop.simps)
  next
    case True
    obtain r1 s1 where t: "transferCompressedSOL w (r_wallet recipient) (r_amount recipient) s = (r1, s1)"
      by (meson surj_pair)
    show ?thesis
    proof (cases r1)
      case (Inr sig)
      then show ?thesis using True t by (simp add: retryLoop.simps saveInv_transfer)
    next
      case (Inl err)
      show ?thesis
      proof (cases "isQueueIssue err \<and> attempts + 1 < maxAttempts")
        case False
        then show ?thesis using True t Inl
          by (subst retryLoop.simps, subst (2) retryLoop.simps) (auto simp add: saveInv_transfer)
      next
        case again: True
        have "retryLoop (w\<lparr>saveInvoiceResult := f\<rparr>) recipient (attempts + 1) err
                 (emit [EvSleep ((attempts + 1) * 2000)] s1)
            = retryLoop w recipient (attempts + 1) err (emit [EvSleep ((attempts + 1) * 2000)] s1)"
          using "1.IH"[OF True t[symmetric] _ _] Inl again by simp
        then show ?thesis using True t Inl again
          by (subst retryLoop.simps, subst (2) retryLoop.simps) (simp add: saveInv_transfer)
      qed
    qed
  qed
qed

lemma saveInv_processRecipient:
  "processRecipient (w\<lparr>saveInvoiceResult := f\<rparr>) r s = processRecipient w r s"
  unfolding processRecipient_def saveInv_retryLoop saveInv_fields ..

lemma saveInv_processAll:
  "processAll (w\<lparr>saveInvoiceResult := f\<rparr>) rs s = processAll w rs s"
  by (induction rs arbitrary: s) (simp_all add: saveInv_processRecipient)

lemma saveInv_batchInvoice:
  "batchInvoice (w\<lparr>saveInvoiceResult := f\<rparr>) = batchInvoice w"
  unfolding fun_eq_iff batchInvoice_def saveInv_fields by (intro allI refl)

lemma createInvoices_eq:
  "createInvoices w team rs s =
     s\<lparr>invoiceSaves := invoiceSaves s + length rs,
       trace := trace s @ map (\<lambda>r. EvSaveInvoice (batchInvoice w team r)) rs\<rparr>"
  by (induction rs arbitrary: s) (auto simp: Let_def emit_def split: option.splits)

lemma saveInv_createInvoices:
  "createInvoices (w\<lparr>saveInvoiceResult := f\<rparr>) team rs s = createInvoices w team rs s"
  by (simp add: createInvoices_eq saveInv_batchInvoice)

lemma saveInv_executeBatchBody:
  "executeBatchBody (w\<lparr>saveInvoiceResult := f\<rparr>) opts s = executeBatchBody w opts s"
proof -
  have "processAll (w\<lparr>saveInvoiceResult := f\<rparr>) = processAll w"
    "createInvoices (w\<lparr>saveInvoiceResult := f\<rparr>) = createInvoices w"
    by (simp_all add: fun_eq_iff saveInv_processAll saveInv_createInvoices)
  then show ?thesis
    unfolding executeBatchBody_def saveInv_autoCompress saveInv_fields by (simp only:)
qed

lemma processRecipient_paid_signature:
  assumes "processRecipient w r s = (r', s')" "r_status r' = Paid"
  shows "r_txSignature r' \<noteq> None"
  using assms
  by (auto simp: processRecipient_def split: option.splits prod.splits sum.splits)

lemma processAll_paid_signature:
  "processAll w rs s = (rs', s') \<Longrightarrow> \<forall>r \<in> set rs'. r_status r = Paid \<longrightarrow> r_txSignature r \<noteq> None"
proof (induction rs arbitrary: s rs' s')
  case Nil
  then show ?case by simp
next
  case (Cons r rs)
  obtain r1 s1 where a: "processRecipient w r s = (r1, s1)" by (meson surj_pair)
  obtain rs2 s2 where b: "processAll w rs s1 = (rs2, s2)" by (meson surj_pair)
  have c: "rs' = r1 # rs2" using Cons.prems a b by simp
  show ?case using Cons.IH[OF b] processRecipient_paid_signature[OF a] c by auto
qed

section \<open>The ways out of the auto-compress block\<close>

lemma FEE_RESERVE_value: "FEE_RESERVE = 10000000"
  unfolding FEE_RESERVE_def by code_simp

lemma totalNeeded_exact:
  assumes "0 < sf" "sf < 2 ^ 53 - 10000000"
  shows "totalNeeded sf = of_int (sf + 10000000)"
proof -
  have a: "sf < 2 ^ 53" using assms by simp
  have b: "0 < sf + 10000000" "sf + 10000000 < 2 ^ 53" using assms by simp_all
  have "totalNeeded sf = fl (fl (of_int sf) + 10000000)"
    by (simp add: totalNeeded_def js_add_def js_number_def FEE_RESERVE_value)
  also have "\<dots> = fl (of_int (sf + 10000000))"
    by (simp add: fl_of_int_pos[OF assms(1) a])
  also have "\<dots> = of_int (sf + 10000000)"
    by (rule fl_of_int_pos[OF b])
  finally show ?thesis .
qed






lemma getCompressedBalance_trace:
  "getCompressedBalance w s = (b, s') \<Longrightarrow> trace s' = trace s @ [EvGetAccounts]"
  by (auto simp: getCompressedBalance_def Let_def emit_def split: sum.splits)

text \<open>The three ways out of the auto-compress block.\<close>

lemma autoCompress_cases:
  assumes "getCompressedBalance w s = (cb, s1)"
  shows "autoCompress w amount s =
     (if cb < amount then
        (case getBalance w of
           Inl m \<Rightarrow> (Inl (JsError m), emit [EvGetBalance] s1)
         | Inr wb \<Rightarrow>
             if of_int wb < totalNeeded (amount - cb) then
               (Inl (Sento (SentoError INSUFFICIENT_BALANCE None
                        (Some [(''walletBalance'', js_div (of_int wb) 1000000000),
                               (''needed'', js_div (totalNeeded (amount - cb)) 1000000000)]))),
                emit [EvGetBalance] s1)
             else
               (case compressSOL w (amountToCompressSOL (amount - cb)) (emit [EvGetBalance] s1) of
                  (Inl e, s3) \<Rightarrow> (Inl e, s3)
                | (Inr signature, s3) \<Rightarrow>
                    (case getCompressedBalance w (emit [EvSleep 2000] s3) of
                       (cb', s4) \<Rightarrow> (Inr cb', s4))))
      else (Inr cb, s1))"
  using assms by (simp add: autoCompress_def Let_def)



lemma parseError_Error_context: "errContext (parseError (JsError m)) = None"
  by simp








section \<open>Counting transfer attempts\<close>

lemma transfer_attempts:
  "transferCompressedSOL w r a s = (res, s') \<Longrightarrow> transferAttempts s' = transferAttempts s + 1"
  by (auto simp: transferCompressedSOL_def transferAttempts_def Let_def emit_def
      split: sum.splits if_splits prod.splits)

lemma transferAttempts_sleep: "transferAttempts (emit [EvSleep n] s) = transferAttempts s"
  by (simp add: transferAttempts_def emit_def)

section \<open>Amounts within the safe integers\<close>

lemma js_number_exact: "0 < b \<Longrightarrow> b < 2 ^ 53 \<Longrightarrow> js_number b = of_int b"
  by (simp add: js_number_def fl_of_int_pos)

lemma executeBatch_total:
  assumes "executeBatch w opts s = (Some batch, s')"
  shows "b_totalAmount batch = batchTotalLamports (sanitizedRecipients (recipients opts))"
  using assms
  by (auto simp: executeBatch_def executeBatchBody_def Let_def
      split: if_splits prod.splits sum.splits option.splits)

lemma autoCompress_request:
  assumes "getCompressedBalance w s = (current, s1)" "current < required"
    "getBalance w = Inr wb" "\<not> of_int wb < totalNeeded (required - current)"
  shows "take (length (trace s1) + 2) (trace (snd (autoCompress w required s)))
     = trace s1 @ [EvGetBalance, EvCompressSOL (amountToCompressSOL (required - current))]"
proof -
  obtain r3 s3 where c: "compressSOL w (amountToCompressSOL (required - current)) (emit [EvGetBalance] s1) = (r3, s3)"
    by (meson surj_pair)
  have t3: "trace s3 = trace s1 @ [EvGetBalance, EvCompressSOL (amountToCompressSOL (required - current)),
      EvSubmitCompress \<lfloor>js_mul (amountToCompressSOL (required - current)) LAMPORTS_PER_SOL\<rfloor>]"
    using c by (auto simp: compressSOL_def Let_def emit_def split: sum.splits)
  obtain cb' s4 where d: "getCompressedBalance w (emit [EvSleep 2000] s3) = (cb', s4)"
    by (meson surj_pair)
  have t4: "trace s4 = trace s3 @ [EvSleep 2000, EvGetAccounts]"
    using getCompressedBalance_trace[OF d] by (simp add: emit_def)
  have "snd (autoCompress w required s) = s3 \<or> snd (autoCompress w required s) = s4"
    unfolding autoCompress_cases[OF assms(1)] using assms(2,3,4) c d
    by (cases r3) auto
  then show ?thesis using t3 t4 by auto
qed

section \<open>Sums over the sorted accounts\<close>

lemma selectLoop_reaches:
  "target \<le> tot + sum_list (map acc_lamports (take (4 - length sel) xs)) \<Longrightarrow> length sel < 4 \<Longrightarrow>
     target \<le> snd (selectLoop xs target sel tot)"
proof (induction xs arbitrary: sel tot)
  case Nil
  then show ?case by simp
next
  case (Cons a xs)
  show ?case
  proof (cases "tot + acc_lamports a \<ge> target")
    case True
    then show ?thesis by (simp add: Let_def)
  next
    case False
    show ?thesis
    proof (cases "length (sel @ [a]) \<ge> 4")
      case True
      then have "4 - length sel = 1" using Cons.prems(2) by simp
      then have "target \<le> tot + acc_lamports a" using Cons.prems(1) by simp
      then show ?thesis using False by simp
    next
      case short: False
      have "4 - length sel = Suc (4 - length (sel @ [a]))" using short by simp
      then have "target \<le> (tot + acc_lamports a)
          + sum_list (map acc_lamports (take (4 - length (sel @ [a])) xs))"
        using Cons.prems(1) by simp
      then have "target \<le> snd (selectLoop xs target (sel @ [a]) (tot + acc_lamports a))"
        using Cons.IH short by simp
      then show ?thesis using False short by (simp add: Let_def)
    qed
  qed
qed

lemma sum_insort_key:
  "sum_list (map g (insort_key f x xs)) = g x + sum_list (map g xs)" for g :: "'a \<Rightarrow> int"
  by (induction xs) auto

lemma sum_sort_key:
  "sum_list (map g (sort_key f xs)) = sum_list (map g xs)" for g :: "'a \<Rightarrow> int"
  by (induction xs) (auto simp: sum_insort_key)

lemma sum_take_le:
  "\<forall>a \<in> set xs. 0 \<le> g a \<Longrightarrow> sum_list (map g (take n xs)) \<le> sum_list (map g xs)"
  for g :: "'a \<Rightarrow> int"
proof (induction xs arbitrary: n)
  case Nil
  then show ?case by simp
next
  case (Cons a xs)
  have t: "sum_list (map g (take m xs)) \<le> sum_list (map g xs)" for m using Cons by simp
  have z: "0 \<le> sum_list (map g xs)" using Cons.prems by (intro sum_list_nonneg) auto
  show ?case
  proof (cases n)
    case 0
    then show ?thesis using Cons.prems z by simp
  next
    case (Suc m)
    then show ?thesis using t[of m] by simp
  qed
qed

section \<open>Attempts of the retry loop\<close>

lemma attempts_retryLoop:
  "retryLoop w r n e s = (res, s') \<Longrightarrow> transferAttempts s' \<le> transferAttempts s + (maxAttempts - n)"
proof (induction w r n e s rule: retryLoop.induct)
  case (1 w recipient attempts lastError s)
  show ?case
  proof (cases "attempts < maxAttempts")
    case False
    then show ?thesis using "1.prems" by (simp add: retryLoop.simps)
  next
    case True
    obtain r1 s1 where t: "transferCompressedSOL w (r_wallet recipient) (r_amount recipient) s = (r1, s1)"
      by (meson surj_pair)
    note x = transfer_attempts[OF t]
    show ?thesis
    proof (cases r1)
      case (Inr sig)
      then show ?thesis using "1.prems" True t x by (simp add: retryLoop.simps)
    next
      case (Inl err)
      show ?thesis
      proof (cases "isQueueIssue err \<and> attempts + 1 < maxAttempts")
        case False
        then show ?thesis using "1.prems" True t x Inl by (auto simp: retryLoop.simps)
      next
        case again: True
        have rec: "retryLoop w recipient (attempts + 1) err (emit [EvSleep ((attempts + 1) * 2000)] s1) = (res, s')"
          using "1.prems" True t Inl again by (simp add: retryLoop.simps)
        have "transferAttempts s' \<le> transferAttempts (emit [EvSleep ((attempts + 1) * 2000)] s1)
            + (maxAttempts - (attempts + 1))"
          using "1.IH"[OF True t[symmetric] _ _ rec] Inl again by simp
        then show ?thesis using x True by (simp add: transferAttempts_sleep)
      qed
    qed
  qed
qed

lemma attempts_processRecipient:
  "transferAttempts (snd (processRecipient w r s)) \<le> transferAttempts s + 3"
proof -
  obtain res s1 where a: "(case newPublicKey w (r_wallet r) of
             Some m \<Rightarrow> (Inl (JsError m), s)
           | None \<Rightarrow> retryLoop w r 0 JsUndefined s) = (res, s1)" by (meson surj_pair)
  have "transferAttempts s1 \<le> transferAttempts s + 3"
    using a attempts_retryLoop[of w r 0 JsUndefined s res s1]
    by (auto split: option.splits simp: maxAttempts_def)
  moreover have "snd (processRecipient w r s) = emit [EvSleep 500] s1"
    using a by (auto simp: processRecipient_def split: sum.splits)
  ultimately show ?thesis by (simp add: transferAttempts_sleep)
qed

section \<open>The effects of a single payment\<close>











section \<open>Evaluating concrete runs\<close>

lemmas run_defs =
  payInvoice_def payInvoiceBody_def executeBatch_def executeBatchBody_def autoCompress_def
  getCompressedBalance_def compressSOL_def transferCompressedSOL_def processRecipient_def
  selectAccounts_def sortedAccounts_def sanitizedRecipients_def toBatchRecipient_def
  batchStatus_def batchInvoice_def orUndefined_def emit_def Let_def
  demo_world_def demo_invoice_def demo_batch_def demo_recipient_def three_recipients_def
  initial_def isValidPublicKey_def isBase58Char_def
  totalLamports_def batchTotalLamports_def js_add_int_exact userMessage_def

lemma compress_lamports_15: "\<lfloor>js_mul (amountToCompressSOL 15) LAMPORTS_PER_SOL\<rfloor> = 14"
  by code_simp

lemma classify_insufficient_compressed:
  "classifyMessage (toLowerCase ''Insufficient compressed balance. Have: ? SOL, Need: ? SOL'')
     = INSUFFICIENT_BALANCE"
  by code_simp

lemma fee_on_fields:
  "PLATFORM_FEE_ENABLED fee_on" "PLATFORM_FEE_WALLET fee_on = ''FFFFFFFFFFFFFFFFFFFFFFFFFFFFFFFF''"
  by (simp_all add: fee_on_def)

lemma feeLamports_on: "0 \<le> a \<Longrightarrow> a < 2 ^ 53 \<Longrightarrow> feeLamports fee_on a = a div 200"
  using fee_floor_exact[of a] by (simp add: feeLamports_def fee_on_def js_mul_def)

lemma queue_issue_examples:
  "isQueueIssue (JsError congestion_message)" "\<not> isQueueIssue (JsError rejection_message)"
  by code_simp+

lemma classify_examples:
  "classifyMessage (toLowerCase congestion_message) = UNKNOWN_ERROR"
  "classifyMessage (toLowerCase rejection_message) = UNKNOWN_ERROR"
  by code_simp+

lemma compress_lamports_30: "\<lfloor>js_mul (amountToCompressSOL 30) LAMPORTS_PER_SOL\<rfloor> = 29"
  by code_simp

lemma compress_sol_30: "amountToCompressSOL 30 * 1000000000 \<noteq> 30"
  by code_simp

lemma lookalike_valid: "isValidPublicKey lookalike"
  by code_simp

lemma classify_invalid_key: "classifyMessage (toLowerCase ''Invalid public key input'') = UNKNOWN_ERROR"
  by code_simp

lemma compress_lamports_20: "\<lfloor>js_mul (amountToCompressSOL 20) LAMPORTS_PER_SOL\<rfloor> = 20"
  by code_simp

section \<open>The total a single payment requires\<close>


text \<open>
  Beyond the safe integers the sum of amount and fee is rounded: at \<open>2^53 - 1\<close> lamports
  the fee is 45035996273704 and the total the hook computes is one more than their sum.
\<close>

lemma totalLamports_beyond_safe_integers:
  "feeLamports fee_on 9007199254740991 = 45035996273704
   \<and> totalLamports fee_on 9007199254740991 = 9052235251014696"
  by code_simp



section \<open>The amount of the top-up\<close>

text \<open>
  C1, at an invoice of 3000 lamports paid by a sender who holds exactly 3000 private
  lamports: with the fee of 15 lamports, 3015 are required and the shortfall is 15. The
  hook hands \<^verbatim>\<open>compressSOL\<close> the quotient \<open>15 / 10^9\<close> rounded to binary64, and
  \<^verbatim>\<open>compressSOL\<close> submits the floor of that times \<open>10^9\<close>, which is 14 lamports, one
  less than the shortfall. The private balance after the top-up is 3014: the transfer of
  3000 to the recipient goes through, the transfer of the fee of 15 finds 14 lamports and
  fails, and the payment is reported as failed.
\<close>

theorem auto_compress_loses_a_lamport:
  "totalLamports fee_on 3000 = 3015
   \<and> fst (getCompressedBalance fee_short_world initial) = 3000
   \<and> payInvoice fee_short_world fee_on (demo_invoice ''AAAAAAAAAAAAAAAAAAAAAAAAAAAAAAAA'' 3000) initial
     = (\<lparr>tr_success = False, tr_signature = None,
         tr_error = Some ''Insufficient balance. Please add more SOL to your wallet.''\<rparr>,
        \<lparr>accountReads = 4, submissions = 2, invoiceSaves = 0,
         trace = [EvGetAccounts, EvGetBalance, EvCompressSOL (amountToCompressSOL 15),
                  EvSubmitCompress 14, EvSleep 2000, EvGetAccounts,
                  EvTransferCompressedSOL ''AAAAAAAAAAAAAAAAAAAAAAAAAAAAAAAA'' 3000, EvGetAccounts,
                  EvSubmitTransfer ''AAAAAAAAAAAAAAAAAAAAAAAAAAAAAAAA'' 3000
                    [\<lparr>acc_hash = ''h'', acc_lamports = 3000\<rparr>],
                  EvTransferCompressedSOL ''FFFFFFFFFFFFFFFFFFFFFFFFFFFFFFFF'' 15, EvGetAccounts],
         hookError = Some (SentoError INSUFFICIENT_BALANCE
            (Some ''Insufficient compressed balance. Have: ? SOL, Need: ? SOL'') None)\<rparr>)"
proof -
  have fee: "feeLamports fee_on 3000 = 15" using feeLamports_on[of 3000] by simp
  have need: "totalNeeded 15 = 10000015" using totalNeeded_exact[of 15] by simp
  show ?thesis
    unfolding fee_short_world_def
    by (simp add: run_defs fee need fee_on_fields compress_lamports_15
        classify_insufficient_compressed)
qed

section \<open>Insufficient public balance\<close>



section \<open>Retries of a batch recipient\<close>

text \<open>
  C3, as the code has it. For one recipient of a batch, name the results of up to three
  successive calls of \<^verbatim>\<open>transferCompressedSOL\<close>, the second after a pause of 1 * 2000 ms and
  the third after a pause of 2 * 2000 ms. A call that succeeds ends the loop with the
  recipient paid. A failure whose text holds neither \<^verbatim>\<open>0x232a\<close> nor \<^verbatim>\<open>9002\<close> ends it at once
  with the recipient failed. A third failure ends it whatever its text. So a recipient
  whose attempts all fail with the queue error gets exactly three attempts and ends
  failed; the reason recorded is the user message that \<^verbatim>\<open>parseError\<close> gives the last error.
\<close>

theorem batch_retry_bound:
  assumes "newPublicKey w (r_wallet r) = None"
    and "transferCompressedSOL w (r_wallet r) (r_amount r) s = (first, s1)"
    and "transferCompressedSOL w (r_wallet r) (r_amount r) (emit [EvSleep (1 * 2000)] s1) = (second, s2)"
    and "transferCompressedSOL w (r_wallet r) (r_amount r) (emit [EvSleep (2 * 2000)] s2) = (third, s3)"
  shows "processRecipient w r s =
     (case first of
        Inr signature \<Rightarrow> (paidOutcome r signature, emit [EvSleep 500] s1)
      | Inl e1 \<Rightarrow>
          if \<not> isQueueIssue e1 then (failedOutcome r e1, emit [EvSleep 500] s1)
          else (case second of
             Inr signature \<Rightarrow> (paidOutcome r signature, emit [EvSleep 500] s2)
           | Inl e2 \<Rightarrow>
               if \<not> isQueueIssue e2 then (failedOutcome r e2, emit [EvSleep 500] s2)
               else (case third of
                  Inr signature \<Rightarrow> (paidOutcome r signature, emit [EvSleep 500] s3)
                | Inl e3 \<Rightarrow> (failedOutcome r e3, emit [EvSleep 500] s3))))
    \<and> transferAttempts s1 = transferAttempts s + 1
    \<and> transferAttempts s2 = transferAttempts s + 2
    \<and> transferAttempts s3 = transferAttempts s + 3"
proof -
  have t2: "transferCompressedSOL w (r_wallet r) (r_amount r) (emit [EvSleep 2000] s1) = (second, s2)"
    using assms(3) by simp
  have t3: "transferCompressedSOL w (r_wallet r) (r_amount r) (emit [EvSleep 4000] s2) = (third, s3)"
    using assms(4) by simp
  have l3: "retryLoop w r (Suc (Suc 0)) e (emit [EvSleep 4000] s2) =
      (case third of Inr signature \<Rightarrow> (Inr signature, s3) | Inl e3 \<Rightarrow> (Inl e3, s3))" for e
    using t3 by (subst retryLoop.simps) (simp add: maxAttempts_def split: sum.splits)
  have l2: "retryLoop w r (Suc 0) e (emit [EvSleep 2000] s1) =
      (case second of
         Inr signature \<Rightarrow> (Inr signature, s2)
       | Inl e2 \<Rightarrow> if isQueueIssue e2 then retryLoop w r (Suc (Suc 0)) e2 (emit [EvSleep 4000] s2)
                  else (Inl e2, s2))" for e
    using t2 by (subst retryLoop.simps) (simp add: maxAttempts_def split: sum.splits)
  have l1: "retryLoop w r 0 e s =
      (case first of
         Inr signature \<Rightarrow> (Inr signature, s1)
       | Inl e1 \<Rightarrow> if isQueueIssue e1 then retryLoop w r (Suc 0) e1 (emit [EvSleep 2000] s1)
                  else (Inl e1, s1))" for e
    using assms(2) by (subst retryLoop.simps) (simp add: maxAttempts_def split: sum.splits)
  have p: "processRecipient w r s =
     (case first of
        Inr signature \<Rightarrow> (paidOutcome r signature, emit [EvSleep 500] s1)
      | Inl e1 \<Rightarrow>
          if \<not> isQueueIssue e1 then (failedOutcome r e1, emit [EvSleep 500] s1)
          else (case second of
             Inr signature \<Rightarrow> (paidOutcome r signature, emit [EvSleep 500] s2)
           | Inl e2 \<Rightarrow>
               if \<not> isQueueIssue e2 then (failedOutcome r e2, emit [EvSleep 500] s2)
               else (case third of
                  Inr signature \<Rightarrow> (paidOutcome r signature, emit [EvSleep 500] s3)
                | Inl e3 \<Rightarrow> (failedOutcome r e3, emit [EvSleep 500] s3))))"
    unfolding processRecipient_def
    by (simp add: assms(1) l1 l2 l3 paidOutcome_def failedOutcome_def split: sum.splits)
  have a: "transferAttempts s1 = transferAttempts s + 1"
    "transferAttempts s2 = transferAttempts s + 2"
    "transferAttempts s3 = transferAttempts s + 3"
    using transfer_attempts[OF assms(2)] transfer_attempts[OF assms(3)] transfer_attempts[OF assms(4)]
    by (simp_all add: transferAttempts_sleep)
  show ?thesis using p a by blast
qed

theorem batch_retry_bound_witness:
  "fst (processRecipient (failing_world congestion_message) demo_batch_recipient initial)
     = failedOutcome demo_batch_recipient (JsError congestion_message)
   \<and> transferAttempts (snd (processRecipient (failing_world congestion_message) demo_batch_recipient initial)) = 3
   \<and> fst (processRecipient (failing_world rejection_message) demo_batch_recipient initial)
     = failedOutcome demo_batch_recipient (JsError rejection_message)
   \<and> transferAttempts (snd (processRecipient (failing_world rejection_message) demo_batch_recipient initial)) = 1"
proof -
  let ?A = "''AAAAAAAAAAAAAAAAAAAAAAAAAAAAAAAA''"
  have r: "r_wallet demo_batch_recipient = ?A" "r_amount demo_batch_recipient = 10"
    by (simp_all add: demo_batch_recipient_def toBatchRecipient_def demo_recipient_def)
  have z: "transferAttempts initial = 0" by (simp add: transferAttempts_def initial_def)
  have part: "fst (processRecipient (failing_world m) demo_batch_recipient initial)
        = failedOutcome demo_batch_recipient (JsError m)
      \<and> transferAttempts (snd (processRecipient (failing_world m) demo_batch_recipient initial))
        = (if isQueueIssue (JsError m) then 3 else 1)" for m
  proof -
    have np: "newPublicKey (failing_world m) (r_wallet demo_batch_recipient) = None"
      by (simp add: failing_world_def demo_world_def)
    define s1 where "s1 = snd (transferCompressedSOL (failing_world m) ?A 10 initial)"
    define s2 where "s2 = snd (transferCompressedSOL (failing_world m) ?A 10 (emit [EvSleep (1 * 2000)] s1))"
    define s3 where "s3 = snd (transferCompressedSOL (failing_world m) ?A 10 (emit [EvSleep (2 * 2000)] s2))"
    have f: "fst (transferCompressedSOL (failing_world m) ?A 10 s) = Inl (JsError m)" for s
      by (simp add: failing_world_def run_defs)
    have t1: "transferCompressedSOL (failing_world m) (r_wallet demo_batch_recipient)
         (r_amount demo_batch_recipient) initial = (Inl (JsError m), s1)"
      unfolding r s1_def using f[of initial] by (metis prod.collapse)
    have t2: "transferCompressedSOL (failing_world m) (r_wallet demo_batch_recipient)
         (r_amount demo_batch_recipient) (emit [EvSleep (1 * 2000)] s1) = (Inl (JsError m), s2)"
      unfolding r s2_def using f[of "emit [EvSleep (1 * 2000)] s1"] by (metis prod.collapse)
    have t3: "transferCompressedSOL (failing_world m) (r_wallet demo_batch_recipient)
         (r_amount demo_batch_recipient) (emit [EvSleep (2 * 2000)] s2) = (Inl (JsError m), s3)"
      unfolding r s3_def using f[of "emit [EvSleep (2 * 2000)] s2"] by (metis prod.collapse)
    show ?thesis
      using batch_retry_bound[OF np t1 t2 t3] z
      by (simp add: transferAttempts_sleep)
  qed
  show ?thesis
    using part[of congestion_message] part[of rejection_message] queue_issue_examples
    by simp
qed

text \<open>
  The specification has the recipient end failed \<^emph>\<open>with the congestion reason\<close>. The code
  records no such reason: a recipient whose three attempts failed with the queue error and one
  whose only attempt was rejected for another cause end with the same status and the
  same message.
\<close>

theorem congestion_reason_is_not_recorded:
  "isQueueIssue (JsError congestion_message)
   \<and> \<not> isQueueIssue (JsError rejection_message)
   \<and> processRecipient (failing_world congestion_message) demo_batch_recipient initial
       = (demo_batch_recipient\<lparr>r_status := Failed,
             r_error := Some ''An unexpected error occurred. Please try again.''\<rparr>,
          \<lparr>accountReads = 3, submissions = 3, invoiceSaves = 0,
           trace = [EvTransferCompressedSOL ''AAAAAAAAAAAAAAAAAAAAAAAAAAAAAAAA'' 10, EvGetAccounts,
                    EvSubmitTransfer ''AAAAAAAAAAAAAAAAAAAAAAAAAAAAAAAA'' 10 [\<lparr>acc_hash = ''h'', acc_lamports = 100\<rparr>],
                    EvSleep 2000,
                    EvTransferCompressedSOL ''AAAAAAAAAAAAAAAAAAAAAAAAAAAAAAAA'' 10, EvGetAccounts,
                    EvSubmitTransfer ''AAAAAAAAAAAAAAAAAAAAAAAAAAAAAAAA'' 10 [\<lparr>acc_hash = ''h'', acc_lamports = 100\<rparr>],
                    EvSleep 4000,
                    EvTransferCompressedSOL ''AAAAAAAAAAAAAAAAAAAAAAAAAAAAAAAA'' 10, EvGetAccounts,
                    EvSubmitTransfer ''AAAAAAAAAAAAAAAAAAAAAAAAAAAAAAAA'' 10 [\<lparr>acc_hash = ''h'', acc_lamports = 100\<rparr>],
                    EvSleep 500],
           hookError = None\<rparr>)
   \<and> processRecipient (failing_world rejection_message) demo_batch_recipient initial
       = (demo_batch_recipient\<lparr>r_status := Failed,
             r_error := Some ''An unexpected error occurred. Please try again.''\<rparr>,
          \<lparr>accountReads = 1, submissions = 1, invoiceSaves = 0,
           trace = [EvTransferCompressedSOL ''AAAAAAAAAAAAAAAAAAAAAAAAAAAAAAAA'' 10, EvGetAccounts,
                    EvSubmitTransfer ''AAAAAAAAAAAAAAAAAAAAAAAAAAAAAAAA'' 10 [\<lparr>acc_hash = ''h'', acc_lamports = 100\<rparr>],
                    EvSleep 500],
           hookError = None\<rparr>)"
  unfolding failing_world_def demo_batch_recipient_def
  by (simp add: run_defs retryLoop.simps maxAttempts_def queue_issue_examples classify_examples)

section \<open>The status of a batch\<close>

text \<open>
  C4. When \<^verbatim>\<open>executeBatch\<close> returns a batch, its status is \<open>completed\<close> exactly when every
  recipient is paid, \<open>failed\<close> exactly when none is, and \<open>partial\<close> exactly when some are
  paid and some are not. The batch holds one outcome for each request that passed the
  filter, in order, and each outcome is paid or failed.
\<close>

theorem batch_status_derivation:
  assumes "executeBatch w opts s = (Some batch, s')"
  shows "(b_status batch = Completed \<longleftrightarrow> (\<forall>r \<in> set (b_recipients batch). r_status r = Paid))
    \<and> (b_status batch = BatchFailed \<longleftrightarrow> (\<forall>r \<in> set (b_recipients batch). r_status r \<noteq> Paid))
    \<and> (b_status batch = Partial \<longleftrightarrow>
         (\<exists>r \<in> set (b_recipients batch). r_status r = Paid)
         \<and> (\<exists>r \<in> set (b_recipients batch). r_status r \<noteq> Paid))
    \<and> map r_wallet (b_recipients batch) = map in_wallet (sanitizedRecipients (recipients opts))
    \<and> map r_amount (b_recipients batch) = map in_amount (sanitizedRecipients (recipients opts))
    \<and> (\<forall>r \<in> set (b_recipients batch). r_status r = Paid \<or> r_status r = Failed)"
proof -
  from executeBatch_Some[OF assms] obtain s1 s2 where
    e1: "sanitizedRecipients (recipients opts) \<noteq> []" and
    p: "processAll w (map toBatchRecipient (sanitizedRecipients (recipients opts))) s1
          = (b_recipients batch, s2)" and
    e3: "b_status batch = batchStatus (b_recipients batch)" by blast
  note f = processAll_fields[OF p]
  have w: "map r_wallet (b_recipients batch) = map in_wallet (sanitizedRecipients (recipients opts))"
    using f by (simp add: toBatchRecipient_def comp_def)
  have a: "map r_amount (b_recipients batch) = map in_amount (sanitizedRecipients (recipients opts))"
    using f by (simp add: toBatchRecipient_def comp_def)
  have ne: "b_recipients batch \<noteq> []" using w e1 by auto
  then obtain r0 where r0: "r0 \<in> set (b_recipients batch)" by (cases "b_recipients batch") auto
  have st: "b_status batch =
     (if (\<forall>r \<in> set (b_recipients batch). r_status r = Paid) then Completed
      else if (\<exists>r \<in> set (b_recipients batch). r_status r = Paid) then Partial
      else BatchFailed)"
    unfolding e3 batchStatus_def by (simp add: list_all_iff list_ex_iff)
  show ?thesis using st r0 w a f by auto
qed

theorem batch_status_derivation_witness:
  "map_option b_status (fst (executeBatch (mixed_world (\<lambda>k. None)) (demo_batch three_recipients) initial))
     = Some Partial
   \<and> map_option (map r_status \<circ> b_recipients)
        (fst (executeBatch (mixed_world (\<lambda>k. None)) (demo_batch three_recipients) initial))
     = Some [Paid, Failed, Paid]"
proof -
  have st: "map_option (map r_status \<circ> b_recipients)
        (fst (executeBatch (mixed_world (\<lambda>k. None)) (demo_batch three_recipients) initial))
     = Some [Paid, Failed, Paid]"
    by code_simp
  then obtain batch s' where
    e: "executeBatch (mixed_world (\<lambda>k. None)) (demo_batch three_recipients) initial = (Some batch, s')"
    by (cases "executeBatch (mixed_world (\<lambda>k. None)) (demo_batch three_recipients) initial") auto
  have rs: "map r_status (b_recipients batch) = [Paid, Failed, Paid]"
    using st e by simp
  then obtain r1 r2 r3 where l: "b_recipients batch = [r1, r2, r3]"
    "r_status r1 = Paid" "r_status r2 = Failed" "r_status r3 = Paid"
    by (auto simp: map_eq_Cons_conv)
  have "\<exists>r \<in> set (b_recipients batch). r_status r = Paid"
    "\<exists>r \<in> set (b_recipients batch). r_status r \<noteq> Paid"
    using l by simp_all
  then have "b_status batch = Partial"
    using batch_status_derivation[OF e] by blast
  then show ?thesis using st e by simp
qed

section \<open>The two legs of a payment with a fee\<close>

text \<open>
  C6. In a payment with a positive fee and a usable fee wallet, once the balance is
  ensured: if the transfer of the amount fails, the payment fails there and the fee
  transfer is never called; if it succeeds, the fee transfer is called next. If that one
  fails, \<^verbatim>\<open>payInvoice\<close> reports the failure (no success, the message of the fee leg's error,
  the error in the hook's state), and the run ends in the state the failed fee transfer
  left: two calls of \<^verbatim>\<open>transferCompressedSOL\<close>, the first to the recipient, the second to
  the fee wallet, and no transfer that would undo the first.
\<close>

theorem fee_leg_after_amount_leg:
  assumes "walletConnected w"
    and "newPublicKey w (inv_recipient invoice) = None"
    and "autoCompress w (totalLamports cfg (inv_amount invoice)) (s\<lparr>hookError := None\<rparr>) = (Inr cb, s1)"
    and "0 < feeLamports cfg (inv_amount invoice)"
    and "PLATFORM_FEE_WALLET cfg \<noteq> []"
    and "isValidPublicKey (PLATFORM_FEE_WALLET cfg)"
    and "newPublicKey w (PLATFORM_FEE_WALLET cfg) = None"
    and "transferCompressedSOL w (inv_recipient invoice) (inv_amount invoice) s1 = (amountLeg, s2)"
    and "transferCompressedSOL w (PLATFORM_FEE_WALLET cfg) (feeLamports cfg (inv_amount invoice)) s2
           = (feeLeg, s3)"
  shows "payInvoice w cfg invoice s =
     (case amountLeg of
        Inl e \<Rightarrow>
          (\<lparr>tr_success = False, tr_signature = None, tr_error = Some (userMessage (parseError e))\<rparr>,
           s2\<lparr>hookError := Some (parseError e)\<rparr>)
      | Inr signature \<Rightarrow>
          (case feeLeg of
             Inl e \<Rightarrow>
               (\<lparr>tr_success = False, tr_signature = None,
                 tr_error = Some (userMessage (parseError e))\<rparr>,
                s3\<lparr>hookError := Some (parseError e)\<rparr>)
           | Inr feeSignature \<Rightarrow>
               (\<lparr>tr_success = True, tr_signature = Some signature, tr_error = None\<rparr>, s3)))
    \<and> extends_by (targets_in {(inv_recipient invoice, inv_amount invoice)}) s1 s2
    \<and> extends_by (targets_in {(PLATFORM_FEE_WALLET cfg, feeLamports cfg (inv_amount invoice))}) s2 s3
    \<and> transferAttempts s2 = transferAttempts s1 + 1
    \<and> transferAttempts s3 = transferAttempts s2 + 1"
proof -
  have body: "payInvoiceBody w cfg invoice (s\<lparr>hookError := None\<rparr>) =
     (case amountLeg of
        Inl e \<Rightarrow> (Inl e, s2)
      | Inr signature \<Rightarrow>
          (case feeLeg of Inl e \<Rightarrow> (Inl e, s3) | Inr feeSignature \<Rightarrow> (Inr signature, s3)))"
    using assms by (simp add: payInvoiceBody_def split: sum.splits)
  have a: "transferAttempts s2 = transferAttempts s1 + 1"
    using assms(8)
    by (auto simp: transferCompressedSOL_def transferAttempts_def Let_def emit_def
        split: sum.splits if_splits prod.splits)
  have b: "transferAttempts s3 = transferAttempts s2 + 1"
    using assms(9)
    by (auto simp: transferCompressedSOL_def transferAttempts_def Let_def emit_def
        split: sum.splits if_splits prod.splits)
  show ?thesis
    using assms(1) body transfer_extends[OF assms(8)] transfer_extends[OF assms(9)] a b
    by (simp add: payInvoice_def split: sum.splits)
qed

theorem fee_leg_after_amount_leg_witness:
  "fst (payInvoice fee_leg_world fee_on (demo_invoice ''AAAAAAAAAAAAAAAAAAAAAAAAAAAAAAAA'' 1000) initial)
     = \<lparr>tr_success = False, tr_signature = None,
        tr_error = Some (userMessage (parseError (JsError ''fee leg rejected'')))\<rparr>
   \<and> transferAttempts (snd (payInvoice fee_leg_world fee_on
         (demo_invoice ''AAAAAAAAAAAAAAAAAAAAAAAAAAAAAAAA'' 1000) initial)) = 2"
proof -
  let ?A = "''AAAAAAAAAAAAAAAAAAAAAAAAAAAAAAAA''"
  let ?F = "''FFFFFFFFFFFFFFFFFFFFFFFFFFFFFFFF''"
  let ?inv = "demo_invoice ?A 1000"
  let ?s1 = "\<lparr>accountReads = 1, submissions = 0, invoiceSaves = 0,
               trace = [EvGetAccounts], hookError = None\<rparr>"
  have c: "walletConnected fee_leg_world" by (simp add: fee_leg_world_def demo_world_def)
  have i: "inv_recipient ?inv = ?A" "inv_amount ?inv = 1000" by (simp_all add: demo_invoice_def)
  have np: "newPublicKey fee_leg_world (inv_recipient ?inv) = None"
    "newPublicKey fee_leg_world (PLATFORM_FEE_WALLET fee_on) = None"
    by (simp_all add: fee_leg_world_def demo_world_def)
  have fee: "feeLamports fee_on (inv_amount ?inv) = 5"
    unfolding i using feeLamports_on[of 1000] by simp
  have ac: "autoCompress fee_leg_world (totalLamports fee_on (inv_amount ?inv)) (initial\<lparr>hookError := None\<rparr>)
      = (Inr 1000000, ?s1)"
    unfolding totalLamports_def fee unfolding i
    by (simp add: fee_leg_world_def run_defs)
  have fw: "PLATFORM_FEE_WALLET fee_on \<noteq> []" "isValidPublicKey (PLATFORM_FEE_WALLET fee_on)"
    by (simp_all add: fee_on_fields isValidPublicKey_def isBase58Char_def)
  define s2 where "s2 = snd (transferCompressedSOL fee_leg_world ?A 1000 ?s1)"
  define s3 where "s3 = snd (transferCompressedSOL fee_leg_world ?F 5 s2)"
  have sub: "submissions s2 = 1"
    unfolding s2_def by (simp add: fee_leg_world_def run_defs)
  have t1: "transferCompressedSOL fee_leg_world (inv_recipient ?inv) (inv_amount ?inv) ?s1 = (Inr ''sig'', s2)"
    unfolding i s2_def by (simp add: fee_leg_world_def run_defs)
  have "fst (transferCompressedSOL fee_leg_world ?F 5 s2) = Inl (JsError ''fee leg rejected'')"
    using sub by (simp add: fee_leg_world_def run_defs)
  then have t2: "transferCompressedSOL fee_leg_world (PLATFORM_FEE_WALLET fee_on)
        (feeLamports fee_on (inv_amount ?inv)) s2 = (Inl (JsError ''fee leg rejected''), s3)"
    unfolding fee fee_on_fields s3_def by (metis prod.collapse)
  have z: "transferAttempts ?s1 = 0" by (simp add: transferAttempts_def)
  have "0 < feeLamports fee_on (inv_amount ?inv)" using fee by simp
  from fee_leg_after_amount_leg[OF c np(1) ac this fw np(2) t1 t2] z
  show ?thesis by (simp add: transferAttempts_def)
qed

section \<open>Validation of a batch\<close>

text \<open>
  C7, as the code has it. \<^verbatim>\<open>executeBatch\<close> filters the requests before anything else: a
  request with a destination that is not 32 to 44 base58 characters, or with an amount
  that is not positive, is dropped. The run is the run on the filtered requests, so a
  dropped request causes no effect and no retry; every transfer that is attempted goes to
  a request that passed the filter. When no request passes, the call ends with
  \<^verbatim>\<open>INVALID_ADDRESS\<close> in the hook's error state and without a single effect. A destination
  that passes the filter and that \<^verbatim>\<open>PublicKey\<close> refuses is met in the loop over the
  recipients: its turn ends as failed, without a call of the transfer and without retry.
\<close>

theorem batch_validation_up_front:
  "executeBatch w (opts\<lparr>recipients := sanitizedRecipients (recipients opts)\<rparr>) s = executeBatch w opts s
   \<and> (walletConnected w \<and> sanitizedRecipients (recipients opts) = [] \<longrightarrow>
        executeBatch w opts s = (None, s\<lparr>hookError := Some (SentoError INVALID_ADDRESS None None)\<rparr>))
   \<and> extends_by
        (targets_in {(wallet, amount). 0 < amount \<and> isValidPublicKey wallet
            \<and> (\<exists>r \<in> set (recipients opts). in_wallet r = wallet \<and> in_amount r = amount)})
        s (snd (executeBatch w opts s))
   \<and> (newPublicKey w (r_wallet recipient) = Some m \<longrightarrow>
        processRecipient w recipient st = (failedOutcome recipient (JsError m), emit [EvSleep 500] st))"
proof -
  have r: "recipients (opts\<lparr>recipients := sanitizedRecipients (recipients opts)\<rparr>)
        = sanitizedRecipients (recipients opts)"
    "teamId (opts\<lparr>recipients := sanitizedRecipients (recipients opts)\<rparr>) = teamId opts"
    "proofHash (opts\<lparr>recipients := sanitizedRecipients (recipients opts)\<rparr>) = proofHash opts"
    by simp_all
  have "executeBatchBody w (opts\<lparr>recipients := sanitizedRecipients (recipients opts)\<rparr>)
      = executeBatchBody w opts"
    unfolding executeBatchBody_def r sanitized_idem ..
  then have a: "executeBatch w (opts\<lparr>recipients := sanitizedRecipients (recipients opts)\<rparr>) s = executeBatch w opts s"
    by (simp only: executeBatch_def)
  have b: "walletConnected w \<and> sanitizedRecipients (recipients opts) = [] \<longrightarrow>
        executeBatch w opts s = (None, s\<lparr>hookError := Some (SentoError INVALID_ADDRESS None None)\<rparr>)"
    by (simp add: executeBatch_def executeBatchBody_def)
  have c: "extends_by
        (targets_in {(wallet, amount). 0 < amount \<and> isValidPublicKey wallet
            \<and> (\<exists>r \<in> set (recipients opts). in_wallet r = wallet \<and> in_amount r = amount)})
        s (snd (executeBatch w opts s))"
    using executeBatch_extends[of opts s w]
    by (rule extends_by_mono) (auto elim!: targets_in_mono dest: sanitized_valid)
  have d: "newPublicKey w (r_wallet recipient) = Some m \<longrightarrow>
        processRecipient w recipient st = (failedOutcome recipient (JsError m), emit [EvSleep 500] st)"
    by (simp add: processRecipient_def failedOutcome_def)
  show ?thesis using a b c d by blast
qed

theorem batch_validation_up_front_witness:
  "executeBatch (mixed_world (\<lambda>k. None))
      (demo_batch [demo_recipient ''not-a-key'' 10,
                   demo_recipient ''AAAAAAAAAAAAAAAAAAAAAAAAAAAAAAAA'' 0,
                   demo_recipient ''BBBBBBBBBBBBBBBBBBBBBBBBBBBBBBBB'' (- 5)]) initial
     = (None, initial\<lparr>hookError := Some (SentoError INVALID_ADDRESS None None)\<rparr>)
   \<and> executeBatch (mixed_world (\<lambda>k. None))
        (demo_batch (demo_recipient ''not-a-key'' 10 # three_recipients)) initial
     = executeBatch (mixed_world (\<lambda>k. None)) (demo_batch three_recipients) initial
   \<and> processRecipient lookalike_world (toBatchRecipient (demo_recipient lookalike 20)) initial
     = (failedOutcome (toBatchRecipient (demo_recipient lookalike 20))
          (JsError ''Invalid public key input''),
        emit [EvSleep 500] initial)"
proof -
  have k: "newPublicKey lookalike_world (r_wallet (toBatchRecipient (demo_recipient lookalike 20)))
      = Some ''Invalid public key input''"
    by (simp add: lookalike_world_def toBatchRecipient_def demo_recipient_def)
  have p: "processRecipient lookalike_world (toBatchRecipient (demo_recipient lookalike 20)) initial
     = (failedOutcome (toBatchRecipient (demo_recipient lookalike 20))
          (JsError ''Invalid public key input''),
        emit [EvSleep 500] initial)"
    using batch_validation_up_front[where w = lookalike_world
        and recipient = "toBatchRecipient (demo_recipient lookalike 20)"
        and m = "''Invalid public key input''" and st = initial] k
    by blast
  have c: "walletConnected (mixed_world (\<lambda>k. None))"
    by (simp add: mixed_world_def demo_world_def)
  have e: "sanitizedRecipients (recipients (demo_batch [demo_recipient ''not-a-key'' 10,
                   demo_recipient ''AAAAAAAAAAAAAAAAAAAAAAAAAAAAAAAA'' 0,
                   demo_recipient ''BBBBBBBBBBBBBBBBBBBBBBBBBBBBBBBB'' (- 5)])) = []"
    by code_simp
  have f: "sanitizedRecipients (recipients (demo_batch (demo_recipient ''not-a-key'' 10 # three_recipients)))
      = three_recipients"
    by code_simp
  have g: "(demo_batch (demo_recipient ''not-a-key'' 10 # three_recipients))\<lparr>recipients := three_recipients\<rparr>
      = demo_batch three_recipients"
    by (simp add: demo_batch_def)
  show ?thesis
    using batch_validation_up_front[where w = "mixed_world (\<lambda>k. None)"
        and opts = "demo_batch [demo_recipient ''not-a-key'' 10,
                   demo_recipient ''AAAAAAAAAAAAAAAAAAAAAAAAAAAAAAAA'' 0,
                   demo_recipient ''BBBBBBBBBBBBBBBBBBBBBBBBBBBBBBBB'' (- 5)]" and s = initial]
      batch_validation_up_front[where w = "mixed_world (\<lambda>k. None)"
        and opts = "demo_batch (demo_recipient ''not-a-key'' 10 # three_recipients)" and s = initial]
    unfolding f g using c e p by (simp only:)
qed

text \<open>
  The specification has every request with a malformed destination rejected before any
  network call, with zero side effects. A request of 20 lamports to a string of 44
  base58 characters that is no key passes the filter: the balances are read, 20 lamports
  are compressed for it, and only then, in the loop, \<^verbatim>\<open>PublicKey\<close> refuses the
  destination; the batch is stored as failed.
\<close>

theorem lookalike_destination_fails_after_top_up:
  "isValidPublicKey lookalike
   \<and> newPublicKey lookalike_world lookalike = Some ''Invalid public key input''
   \<and> executeBatch lookalike_world (demo_batch [demo_recipient lookalike 20]) initial
     = (Some lookalike_batch,
        \<lparr>accountReads = 2, submissions = 1, invoiceSaves = 0,
         trace = [EvGetAccounts, EvGetBalance, EvCompressSOL (amountToCompressSOL 20),
                  EvSubmitCompress 20, EvSleep 2000, EvGetAccounts, EvSleep 500,
                  EvSaveBatchPayment lookalike_batch],
         hookError = None\<rparr>)"
proof -
  have need: "totalNeeded 20 = 10000020" using totalNeeded_exact[of 20] by simp
  have san: "sanitizedRecipients [\<lparr>in_wallet = lookalike, in_amount = 20, in_note = None\<rparr>]
      = [\<lparr>in_wallet = lookalike, in_amount = 20, in_note = None\<rparr>]"
    using lookalike_valid by (simp add: sanitizedRecipients_def)
  have run: "executeBatch lookalike_world (demo_batch [demo_recipient lookalike 20]) initial
     = (Some lookalike_batch,
        \<lparr>accountReads = 2, submissions = 1, invoiceSaves = 0,
         trace = [EvGetAccounts, EvGetBalance, EvCompressSOL (amountToCompressSOL 20),
                  EvSubmitCompress 20, EvSleep 2000, EvGetAccounts, EvSleep 500,
                  EvSaveBatchPayment lookalike_batch],
         hookError = None\<rparr>)"
    unfolding executeBatch_def executeBatchBody_def demo_batch_def
    by (simp add: san lookalike_world_def topup_world_def lookalike_batch_def
        demo_world_def demo_recipient_def initial_def autoCompress_def getCompressedBalance_def
        compressSOL_def processRecipient_def toBatchRecipient_def batchStatus_def orUndefined_def
        batchTotalLamports_def js_add_int_exact emit_def Let_def userMessage_def
        need compress_lamports_20 classify_invalid_key)
  show ?thesis using lookalike_valid run by (simp add: lookalike_world_def)
qed

section \<open>Units and arithmetic of the amounts\<close>

text \<open>
  C8, as the code has it. The reserve \<^verbatim>\<open>0.01 * 1_000_000_000\<close> is exactly 10^7 lamports. For
  a shortfall in the safe integers, its conversion to a number is exact, the needed total
  is the shortfall plus the reserve, and the amount handed on to be compressed is the
  shortfall divided by 10^9 and rounded to binary64: an amount in SOL. For an invoice
  amount in the safe integers the fee is the integer \<open>amount div 200\<close> (or 0 when
  disabled), although it is computed as the floor of a binary64 product. The total of a
  batch is the sum of the requests that passed the filter, as long as that sum is within
  the safe integers: it is added up in binary64. When a top-up goes ahead, the call of
  \<^verbatim>\<open>compressSOL\<close> is made with that amount in SOL.
\<close>

theorem accounting_amounts_in_lamports:
  "FEE_RESERVE = 10000000
   \<and> (0 < shortfall \<and> shortfall < 2 ^ 53 - 10000000 \<longrightarrow>
        js_number shortfall = of_int shortfall
        \<and> totalNeeded shortfall = of_int (shortfall + 10000000)
        \<and> amountToCompressSOL shortfall = fl (of_int shortfall / 1000000000))
   \<and> (0 \<le> amount \<and> amount < 2 ^ 53 \<longrightarrow>
        feeLamports cfg amount = (if PLATFORM_FEE_ENABLED cfg then amount div 200 else 0))
   \<and> (executeBatch w opts s = (Some batch, s')
        \<and> sum_list (map in_amount (sanitizedRecipients (recipients opts))) < 2 ^ 53 \<longrightarrow>
        b_totalAmount batch = sum_list (map in_amount (sanitizedRecipients (recipients opts))))
   \<and> (getCompressedBalance w s = (current, s1) \<and> current < required
        \<and> getBalance w = Inr walletBalance
        \<and> \<not> of_int walletBalance < totalNeeded (required - current) \<longrightarrow>
        take (length (trace s1) + 2) (trace (snd (autoCompress w required s)))
          = trace s1 @ [EvGetBalance, EvCompressSOL (amountToCompressSOL (required - current))])"
proof -
  have a: "js_number shortfall = of_int shortfall
        \<and> totalNeeded shortfall = of_int (shortfall + 10000000)
        \<and> amountToCompressSOL shortfall = fl (of_int shortfall / 1000000000)"
    if "0 < shortfall \<and> shortfall < 2 ^ 53 - 10000000"
  proof -
    have lt: "shortfall < 2 ^ 53" using that by simp
    have n: "js_number shortfall = of_int shortfall" using js_number_exact that lt by blast
    show ?thesis
      using n totalNeeded_exact[of shortfall] that
      by (simp add: amountToCompressSOL_def js_div_def)
  qed
  have b: "feeLamports cfg amount = (if PLATFORM_FEE_ENABLED cfg then amount div 200 else 0)"
    if "0 \<le> amount \<and> amount < 2 ^ 53"
    using fee_floor_exact[of amount] that by (simp add: feeLamports_def js_mul_def)
  have c: "b_totalAmount batch = sum_list (map in_amount (sanitizedRecipients (recipients opts)))"
    if "executeBatch w opts s = (Some batch, s')
        \<and> sum_list (map in_amount (sanitizedRecipients (recipients opts))) < 2 ^ 53"
    using executeBatch_total[of w opts s batch s'] sanitized_total_exact[of "recipients opts"] that
    by simp
  show ?thesis
    using FEE_RESERVE_value a b c autoCompress_request by blast
qed

theorem accounting_amounts_in_lamports_witness:
  "totalNeeded 30 = 10000030
   \<and> feeLamports fee_on 1000 = 5
   \<and> feeLamports fee_off 1000 = 0
   \<and> js_number 30 = 30
   \<and> map_option b_totalAmount
        (fst (executeBatch (mixed_world (\<lambda>k. None)) (demo_batch three_recipients) initial)) = Some 30"
proof -
  have "map_option b_status
        (fst (executeBatch (mixed_world (\<lambda>k. None)) (demo_batch three_recipients) initial)) = Some Partial"
    by code_simp
  then obtain batch s' where
    e: "executeBatch (mixed_world (\<lambda>k. None)) (demo_batch three_recipients) initial = (Some batch, s')"
    by (cases "executeBatch (mixed_world (\<lambda>k. None)) (demo_batch three_recipients) initial") auto
  have t: "sum_list (map in_amount (sanitizedRecipients (recipients (demo_batch three_recipients)))) = 30"
    by (simp add: run_defs)
  show ?thesis
    using accounting_amounts_in_lamports[where shortfall = 30 and amount = 1000 and cfg = fee_on
        and w = "mixed_world (\<lambda>k. None)" and opts = "demo_batch three_recipients" and s = initial
        and batch = batch and s' = s']
      accounting_amounts_in_lamports[where shortfall = 30 and amount = 1000 and cfg = fee_off]
      e t
    by (simp add: fee_on_fields fee_off_def)
qed

text \<open>
  The specification has every amount of the accounting path in integer lamports, free
  of floating point. At a batch of 30 lamports paid from an empty private balance, the
  amount to compress is a binary64 fraction of a SOL that is not 30 lamports' worth, and
  the fee rate the code multiplies by is not the rational 0.005. The total of a batch of
  \<open>2^53 - 1\<close> and 2 lamports is the binary64 sum \<open>2^53\<close>, one less than the integer sum.
\<close>

theorem compress_amount_is_a_rounded_fraction:
  "sum_list (map in_amount three_recipients) = 30
   \<and> autoCompress (topup_world 29) 30 initial
       = (Inr 29,
          \<lparr>accountReads = 2, submissions = 1, invoiceSaves = 0,
           trace = [EvGetAccounts, EvGetBalance, EvCompressSOL (amountToCompressSOL 30),
                    EvSubmitCompress 29, EvSleep 2000, EvGetAccounts],
           hookError = None\<rparr>)
   \<and> amountToCompressSOL 30 * 1000000000 \<noteq> 30
   \<and> SENTO_FEE_PERCENTAGE \<noteq> 5 / 1000
   \<and> batchTotalLamports (sanitizedRecipients
         [demo_recipient ''AAAAAAAAAAAAAAAAAAAAAAAAAAAAAAAA'' 9007199254740991,
          demo_recipient ''BBBBBBBBBBBBBBBBBBBBBBBBBBBBBBBB'' 2]) = 9007199254740992"
proof -
  have big: "batchTotalLamports (sanitizedRecipients
         [demo_recipient ''AAAAAAAAAAAAAAAAAAAAAAAAAAAAAAAA'' 9007199254740991,
          demo_recipient ''BBBBBBBBBBBBBBBBBBBBBBBBBBBBBBBB'' 2]) = 9007199254740992"
    by code_simp
  have need: "totalNeeded 30 = 10000030" using totalNeeded_exact[of 30] by simp
  have rate: "SENTO_FEE_PERCENTAGE \<noteq> 5 / 1000" unfolding SENTO_FEE_PERCENTAGE_value by simp
  have run: "autoCompress (topup_world 29) 30 initial
       = (Inr 29,
          \<lparr>accountReads = 2, submissions = 1, invoiceSaves = 0,
           trace = [EvGetAccounts, EvGetBalance, EvCompressSOL (amountToCompressSOL 30),
                    EvSubmitCompress 29, EvSleep 2000, EvGetAccounts],
           hookError = None\<rparr>)"
    unfolding topup_world_def by (simp add: run_defs need compress_lamports_30)
  show ?thesis using run rate compress_sol_30 big by (simp add: three_recipients_def demo_recipient_def)
qed

section \<open>The account selector\<close>

lemma selectLoop_prefix:
  "selectLoop xs target sel tot = (sel', tot') \<Longrightarrow>
     \<exists>n. n \<le> length xs \<and> sel' = sel @ take n xs
       \<and> tot' = tot + sum_list (map acc_lamports (take n xs))
       \<and> (length sel < 4 \<longrightarrow> length sel' \<le> 4)"
proof (induction xs arbitrary: sel tot)
  case Nil
  then show ?case by auto
next
  case (Cons a xs)
  show ?case
  proof (cases "tot + acc_lamports a \<ge> target \<or> length (sel @ [a]) \<ge> 4")
    case True
    then have "sel' = sel @ [a]" "tot' = tot + acc_lamports a"
      using Cons.prems by (auto simp: Let_def split: if_splits)
    then have "1 \<le> length (a # xs) \<and> sel' = sel @ take 1 (a # xs)
       \<and> tot' = tot + sum_list (map acc_lamports (take 1 (a # xs)))
       \<and> (length sel < 4 \<longrightarrow> length sel' \<le> 4)" by simp
    then show ?thesis by blast
  next
    case False
    then have rec: "selectLoop xs target (sel @ [a]) (tot + acc_lamports a) = (sel', tot')"
      using Cons.prems by (auto simp: Let_def split: if_splits)
    from Cons.IH[OF rec] obtain n where n: "n \<le> length xs" "sel' = (sel @ [a]) @ take n xs"
      "tot' = tot + acc_lamports a + sum_list (map acc_lamports (take n xs))"
      "length (sel @ [a]) < 4 \<longrightarrow> length sel' \<le> 4" by blast
    have "Suc n \<le> length (a # xs) \<and> sel' = sel @ take (Suc n) (a # xs)
       \<and> tot' = tot + sum_list (map acc_lamports (take (Suc n) (a # xs)))
       \<and> (length sel < 4 \<longrightarrow> length sel' \<le> 4)"
      using n False by simp
    then show ?thesis by blast
  qed
qed

lemma selectAccounts_prefix:
  assumes "selectAccounts items target = (selected, selTotal)"
  shows "length selected \<le> 4" 
    and "selected = take (length selected) (sortedAccounts items)"
    and "selTotal = sum_list (map acc_lamports selected)"
proof -
  from selectLoop_prefix[OF assms[unfolded selectAccounts_def]]
  obtain n where n: "n \<le> length (sortedAccounts items)" "selected = take n (sortedAccounts items)"
    "selTotal = sum_list (map acc_lamports (take n (sortedAccounts items)))" "length selected \<le> 4"
    by auto
  show "length selected \<le> 4" using n by simp
  show "selected = take (length selected) (sortedAccounts items)" using n by simp
  show "selTotal = sum_list (map acc_lamports selected)" using n by simp
qed

text \<open>
  C9. Whatever the available accounts and the target, the selection holds at most 4
  accounts; it is a prefix of the accounts in descending order of lamports, and its total
  is the sum of that prefix. So the check that lets the operation go on (the
  total is not below the target) passes only if the running total of that greedy
  accumulation reaches the target within 4 accounts.
\<close>

theorem selector_ceiling:
  "length (fst (selectAccounts items target)) \<le> 4
   \<and> fst (selectAccounts items target)
       = take (length (fst (selectAccounts items target))) (sortedAccounts items)
   \<and> snd (selectAccounts items target)
       = sum_list (map acc_lamports (fst (selectAccounts items target)))
   \<and> sorted (rev (map acc_lamports (sortedAccounts items)))
   \<and> (\<not> snd (selectAccounts items target) < target \<longrightarrow>
        (\<exists>n\<le>4. target \<le> sum_list (map acc_lamports (take n (sortedAccounts items)))))"
proof -
  obtain selected selTotal where st: "selectAccounts items target = (selected, selTotal)"
    by (cases "selectAccounts items target")
  note p = selectAccounts_prefix[OF st]
  have "sorted (map (\<lambda>a. - acc_lamports a) (sortedAccounts items))"
    unfolding sortedAccounts_def by (rule sorted_sort_key)
  then have srt: "sorted (rev (map acc_lamports (sortedAccounts items)))"
    by (simp add: sorted_wrt_rev sorted_map sorted_wrt_map)
  have "\<not> selTotal < target \<Longrightarrow>
      \<exists>n\<le>4. target \<le> sum_list (map acc_lamports (take n (sortedAccounts items)))"
    using p by (metis not_less)
  then show ?thesis using st p srt by simp
qed


theorem selector_ceiling_witness:
  "selectAccounts [\<lparr>acc_hash = ''c'', acc_lamports = 2\<rparr>, \<lparr>acc_hash = ''a'', acc_lamports = 7\<rparr>,
       \<lparr>acc_hash = ''b'', acc_lamports = 3\<rparr>] 9
     = ([\<lparr>acc_hash = ''a'', acc_lamports = 7\<rparr>, \<lparr>acc_hash = ''b'', acc_lamports = 3\<rparr>], 10)
   \<and> (\<exists>n\<le>4. 9 \<le> sum_list (map acc_lamports (take n (sortedAccounts
       [\<lparr>acc_hash = ''c'', acc_lamports = 2\<rparr>, \<lparr>acc_hash = ''a'', acc_lamports = 7\<rparr>,
        \<lparr>acc_hash = ''b'', acc_lamports = 3\<rparr>]))))"
proof -
  have e: "selectAccounts [\<lparr>acc_hash = ''c'', acc_lamports = 2\<rparr>, \<lparr>acc_hash = ''a'', acc_lamports = 7\<rparr>,
       \<lparr>acc_hash = ''b'', acc_lamports = 3\<rparr>] 9
     = ([\<lparr>acc_hash = ''a'', acc_lamports = 7\<rparr>, \<lparr>acc_hash = ''b'', acc_lamports = 3\<rparr>], 10)"
    by (simp add: selectAccounts_def sortedAccounts_def)
  show ?thesis
    using selector_ceiling[of "[\<lparr>acc_hash = ''c'', acc_lamports = 2\<rparr>, \<lparr>acc_hash = ''a'', acc_lamports = 7\<rparr>,
       \<lparr>acc_hash = ''b'', acc_lamports = 3\<rparr>]" 9]
    unfolding e by simp
qed

section \<open>A failed invoice write\<close>

text \<open>
  C10. Whatever \<^verbatim>\<open>saveInvoice\<close> answers, failures included, \<^verbatim>\<open>executeBatch\<close> runs and returns
  the same: the batch it returns is the one computed before the invoices were written,
  every paid recipient keeps its status and its signature, and one invoice write is
  issued for each paid recipient, in order, after the batch was saved.
\<close>

theorem invoice_write_failure_is_swallowed:
  "executeBatch (w\<lparr>saveInvoiceResult := f\<rparr>) opts s = executeBatch w opts s
   \<and> (\<forall>batch s'. executeBatch w opts s = (Some batch, s') \<longrightarrow>
        (\<exists>evs. trace s' = evs @ EvSaveBatchPayment batch #
             map (\<lambda>r. EvSaveInvoice (batchInvoice w (teamId opts) r))
               (filter (\<lambda>r. r_status r = Paid) (b_recipients batch)))
        \<and> (\<forall>r \<in> set (b_recipients batch). r_status r = Paid \<longrightarrow> r_txSignature r \<noteq> None))"
proof -
  have a: "executeBatch (w\<lparr>saveInvoiceResult := f\<rparr>) opts s = executeBatch w opts s"
    by (simp add: executeBatch_def saveInv_executeBatchBody)
  have b: "(\<exists>evs. trace s' = evs @ EvSaveBatchPayment batch #
             map (\<lambda>r. EvSaveInvoice (batchInvoice w (teamId opts) r))
               (filter (\<lambda>r. r_status r = Paid) (b_recipients batch)))
        \<and> (\<forall>r \<in> set (b_recipients batch). r_status r = Paid \<longrightarrow> r_txSignature r \<noteq> None)"
    if e: "executeBatch w opts s = (Some batch, s')" for batch s'
  proof -
    from executeBatch_Some[OF e] obtain s1 s2 where
      p: "processAll w (map toBatchRecipient (sanitizedRecipients (recipients opts))) s1
            = (b_recipients batch, s2)" and
      s': "s' = createInvoices w (teamId opts)
               (filter (\<lambda>r. r_status r = Paid) (b_recipients batch))
               (emit [EvSaveBatchPayment batch] s2)" by blast
    have "trace s' = trace s2 @ EvSaveBatchPayment batch #
             map (\<lambda>r. EvSaveInvoice (batchInvoice w (teamId opts) r))
               (filter (\<lambda>r. r_status r = Paid) (b_recipients batch))"
      unfolding s' by (simp add: createInvoices_eq emit_def)
    then show ?thesis using processAll_paid_signature[OF p] by blast
  qed
  show ?thesis using a b by blast
qed

theorem invoice_write_failure_is_swallowed_witness:
  "map_option (map r_status \<circ> b_recipients)
      (fst (executeBatch (mixed_world (\<lambda>k. Some ''insert failed'')) (demo_batch three_recipients) initial))
     = Some [Paid, Failed, Paid]
   \<and> map_option (map r_txSignature \<circ> b_recipients)
      (fst (executeBatch (mixed_world (\<lambda>k. Some ''insert failed'')) (demo_batch three_recipients) initial))
     = Some [Some ''sig'', None, Some ''sig'']
   \<and> snd (executeBatch (mixed_world (\<lambda>k. Some ''insert failed'')) (demo_batch three_recipients) initial)
     = snd (executeBatch (mixed_world (\<lambda>k. None)) (demo_batch three_recipients) initial)"
proof -
  have w: "mixed_world (\<lambda>k. Some ''insert failed'')
      = (mixed_world (\<lambda>k. None))\<lparr>saveInvoiceResult := (\<lambda>k. Some ''insert failed'')\<rparr>"
    by (simp add: mixed_world_def demo_world_def)
  have e: "executeBatch (mixed_world (\<lambda>k. Some ''insert failed'')) (demo_batch three_recipients) initial
      = executeBatch (mixed_world (\<lambda>k. None)) (demo_batch three_recipients) initial"
    unfolding w
    using invoice_write_failure_is_swallowed[where w = "mixed_world (\<lambda>k. None)"
        and f = "\<lambda>k. Some ''insert failed''" and opts = "demo_batch three_recipients" and s = initial]
    by blast
  have st: "map_option (map r_status \<circ> b_recipients)
        (fst (executeBatch (mixed_world (\<lambda>k. None)) (demo_batch three_recipients) initial))
     = Some [Paid, Failed, Paid]"
    "map_option (map r_txSignature \<circ> b_recipients)
        (fst (executeBatch (mixed_world (\<lambda>k. None)) (demo_batch three_recipients) initial))
     = Some [Some ''sig'', None, Some ''sig'']"
    by code_simp+
  show ?thesis unfolding e using st by simp
qed

section \<open>Further properties\<close>

text \<open>
  Selector sufficiency. If the four largest accounts (or all of them, when there are
  fewer) cover the target, the selection covers it; if the accounts hold no negative
  amount and their sum is below the target, the selection does not cover it.
\<close>

theorem selector_sufficiency:
  "(target \<le> sum_list (map acc_lamports (take 4 (sortedAccounts items)))
      \<longrightarrow> target \<le> snd (selectAccounts items target))
   \<and> ((\<forall>a \<in> set items. 0 \<le> acc_lamports a) \<and> sum_list (map acc_lamports items) < target
      \<longrightarrow> snd (selectAccounts items target) < target)"
proof -
  have a: "target \<le> snd (selectAccounts items target)"
    if "target \<le> sum_list (map acc_lamports (take 4 (sortedAccounts items)))"
    unfolding selectAccounts_def
    using selectLoop_reaches[of target 0 "[]" "sortedAccounts items"] that by simp
  have b: "snd (selectAccounts items target) < target"
    if h: "(\<forall>a \<in> set items. 0 \<le> acc_lamports a) \<and> sum_list (map acc_lamports items) < target"
  proof -
    obtain selected selTotal where st: "selectAccounts items target = (selected, selTotal)"
      by (meson surj_pair)
    note p = selectAccounts_prefix[OF st]
    have nn: "\<forall>a \<in> set (sortedAccounts items). 0 \<le> acc_lamports a"
      using h by (simp add: sortedAccounts_def)
    have "selTotal = sum_list (map acc_lamports (take (length selected) (sortedAccounts items)))"
      using p(2,3) by simp
    also have "\<dots> \<le> sum_list (map acc_lamports (sortedAccounts items))"
      using sum_take_le[OF nn] by blast
    also have "\<dots> = sum_list (map acc_lamports items)"
      by (simp add: sortedAccounts_def sum_sort_key)
    finally show ?thesis using h st by simp
  qed
  show ?thesis using a b by blast
qed

theorem selector_sufficiency_witness:
  "9 \<le> snd (selectAccounts [\<lparr>acc_hash = ''c'', acc_lamports = 2\<rparr>, \<lparr>acc_hash = ''a'', acc_lamports = 7\<rparr>,
       \<lparr>acc_hash = ''b'', acc_lamports = 3\<rparr>] 9)
   \<and> snd (selectAccounts [\<lparr>acc_hash = ''c'', acc_lamports = 2\<rparr>, \<lparr>acc_hash = ''a'', acc_lamports = 7\<rparr>,
       \<lparr>acc_hash = ''b'', acc_lamports = 3\<rparr>] 13) < 13"
proof -
  let ?items = "[\<lparr>acc_hash = ''c'', acc_lamports = 2\<rparr>, \<lparr>acc_hash = ''a'', acc_lamports = 7\<rparr>,
       \<lparr>acc_hash = ''b'', acc_lamports = 3\<rparr>]"
  have a: "9 \<le> sum_list (map acc_lamports (take 4 (sortedAccounts ?items)))"
    by (simp add: sortedAccounts_def)
  have b: "(\<forall>a \<in> set ?items. 0 \<le> acc_lamports a) \<and> sum_list (map acc_lamports ?items) < 13"
    by simp
  show ?thesis
    using selector_sufficiency[of 9 ?items] selector_sufficiency[of 13 ?items] a b by blast
qed

text \<open>
  Bound on the attempts. Whatever the collaborators answer, a batch calls
  \<^verbatim>\<open>transferCompressedSOL\<close> at most three times per recipient.
\<close>

theorem batch_attempts_bounded:
  "transferAttempts (snd (processAll w rs s)) \<le> transferAttempts s + 3 * length rs"
proof (induction rs arbitrary: s)
  case Nil
  then show ?case by simp
next
  case (Cons r rs)
  obtain r1 s1 where a: "processRecipient w r s = (r1, s1)" by (meson surj_pair)
  obtain rs2 s2 where b: "processAll w rs s1 = (rs2, s2)" by (meson surj_pair)
  have "transferAttempts s1 \<le> transferAttempts s + 3"
    using attempts_processRecipient[of w r s] a by simp
  moreover have "transferAttempts s2 \<le> transferAttempts s1 + 3 * length rs"
    using Cons.IH[of s1] b by simp
  ultimately show ?case using a b by simp
qed

text \<open>
  No top-up without a shortfall. When the private balance as read covers the required
  total, the auto-compress block does nothing more: no wallet read, no compress.
\<close>

theorem no_top_up_when_balance_suffices:
  "getCompressedBalance w s = (current, s1) \<and> required \<le> current \<longrightarrow>
     autoCompress w required s = (Inr current, s1)"
  using autoCompress_cases[of w s current s1 required] by simp

theorem no_top_up_when_balance_suffices_witness:
  "autoCompress (mixed_world (\<lambda>k. None)) 30 initial
     = (Inr 100, \<lparr>accountReads = 1, submissions = 0, invoiceSaves = 0,
                  trace = [EvGetAccounts], hookError = None\<rparr>)"
proof -
  have "getCompressedBalance (mixed_world (\<lambda>k. None)) initial
      = (100, \<lparr>accountReads = 1, submissions = 0, invoiceSaves = 0,
                trace = [EvGetAccounts], hookError = None\<rparr>)"
    by (simp add: mixed_world_def run_defs)
  then show ?thesis
    using no_top_up_when_balance_suffices[where w = "mixed_world (\<lambda>k. None)" and s = initial
        and current = 100 and required = 30] by simp
qed

text \<open>
  Size of the loss in the top-up. For a shortfall below \<open>2^51\<close> lamports, the lamports
  that \<^verbatim>\<open>compressSOL\<close> computes from the amount in SOL are the shortfall or one lamport
  less, never more.
\<close>

theorem compress_within_one_lamport:
  assumes "0 < sf" "sf < 2 ^ 51"
  shows "\<lfloor>js_mul (amountToCompressSOL sf) LAMPORTS_PER_SOL\<rfloor> = sf
       \<or> \<lfloor>js_mul (amountToCompressSOL sf) LAMPORTS_PER_SOL\<rfloor> = sf - 1"
proof -
  define r where "r = (of_int sf :: rat)"
  define q1 where "q1 = r / 1000000000"
  define y1 where "y1 = fl q1"
  define q2 where "q2 = y1 * 1000000000"
  define y2 where "y2 = fl q2"
  have "sf < 2 ^ 53" using assms by simp
  then have n: "js_number sf = r" unfolding r_def using js_number_exact assms(1) by blast
  have e: "js_mul (amountToCompressSOL sf) LAMPORTS_PER_SOL = y2"
    by (simp add: js_mul_def amountToCompressSOL_def js_div_def n LAMPORTS_PER_SOL_def
        y2_def q2_def y1_def q1_def)
  have "1 \<le> sf" using assms by simp
  then have "(of_int 1 :: rat) \<le> of_int sf" by (simp only: of_int_le_iff)
  then have r1: "1 \<le> r" unfolding r_def by simp
  have "sf \<le> 2 ^ 51" using assms by simp
  then have "(of_int sf :: rat) \<le> of_int (2 ^ 51)" by (simp only: of_int_le_iff)
  then have r51: "r \<le> 2251799813685248" unfolding r_def by simp
  have q1lo: "1 / 2 ^ 40 \<le> q1" unfolding q1_def using r1 by simp
  note a = fl_rel[OF q1lo, folded y1_def]
  have b1: "r - r / 2 ^ 53 \<le> q2" using a(1) unfolding q2_def q1_def by (simp add: field_simps)
  have b2: "q2 \<le> r + r / 2 ^ 53" using a(2) unfolding q2_def q1_def by (simp add: field_simps)
  have q2lo: "1 / 2 ^ 40 \<le> q2" using b1 r1 r51 by simp
  note c = fl_rel[OF q2lo, folded y2_def]
  have q2hi: "q2 \<le> r + 1 / 4" using b2 r51 by simp
  have q2low: "r - 1 / 4 \<le> q2" using b1 r51 by simp
  have up: "y2 < r + 1" using c(2) q2hi r51 by simp
  have lo: "r - 1 < y2" using c(1) q2low q2hi r51 r1 by simp
  have "\<lfloor>y2\<rfloor> < sf + 1"
    using up unfolding r_def by (metis floor_less_iff of_int_1 of_int_add)
  moreover have "sf - 1 \<le> \<lfloor>y2\<rfloor>"
    using lo unfolding r_def by (metis le_floor_iff less_imp_le of_int_1 of_int_diff)
  ultimately show ?thesis unfolding e by linarith
qed

theorem compress_within_one_lamport_witness:
  "\<lfloor>js_mul (amountToCompressSOL 15) LAMPORTS_PER_SOL\<rfloor> = 14
   \<and> (\<lfloor>js_mul (amountToCompressSOL 29) LAMPORTS_PER_SOL\<rfloor> = 29
      \<or> \<lfloor>js_mul (amountToCompressSOL 29) LAMPORTS_PER_SOL\<rfloor> = 28)"
  using compress_within_one_lamport[of 29] compress_lamports_15 by simp

end
